theory Spec2Isabelle
  imports Complex_Main "HOL-Library.Sublist"
begin

section \<open>Shared data: Python values, dictionaries, exceptions\<close>

text \<open>
  A Python \<open>str\<close> is modelled as a \<open>string\<close> whose characters are code points below 256;
  \<open>len\<close> is \<open>length\<close>.  The values stored in a metadata \<open>Dict\<close> are strings and integers.
\<close>

datatype pyval = PyStr string | PyInt int

type_synonym metadata = "string \<rightharpoonup> pyval"

text \<open>\<open>d.get(key, default)\<close>\<close>

definition dict_get :: "metadata \<Rightarrow> string \<Rightarrow> pyval \<Rightarrow> pyval" where
  "dict_get d key dflt = (case d key of None \<Rightarrow> dflt | Some v \<Rightarrow> v)"

text \<open>
  Python exceptions: the four classes the modelled functions raise themselves, and
  \<open>Propagated e\<close> for an exception \<open>e\<close> of any other kind that an external collaborator
  (embedding model, vector index) raises and the caller lets through.  An extraction
  backend can raise any exception, of the four classes too (a parser raises
  \<open>ValueError\<close> on a file it cannot read, a subprocess call raises \<open>FileNotFoundError\<close>
  when the program is gone), so a backend raises a \<open>py_error\<close>.
\<close>

datatype 'e py_error =
    FileNotFoundError
  | ValueError
  | RuntimeError
  | TypeError
  | Propagated 'e

section \<open>retriever.py: DocumentRetriever\<close>

text \<open>
  What \<open>VectorStore.query\<close> hands back, restricted to the entries \<open>retrieve\<close> reads:
  \<open>results['documents'][0]\<close>, \<open>results['metadatas'][0]\<close>, \<open>results['distances'][0]\<close>.
\<close>

record query_result =
  documents :: "string list"
  metadatas :: "metadata list"
  distances :: "real list"

text \<open>
  The retriever object.  The vector store and the embedding generator are external: they
  are fields holding functions that either raise (\<open>Inl\<close>) or return (\<open>Inr\<close>).
  \<open>vector_store r emb n\<close> is \<open>self.vector_store.query(query_embedding=emb, n_results=n)\<close>.
\<close>

record ('v, 'e) DocumentRetriever =
  vector_store :: "'v \<Rightarrow> int \<Rightarrow> 'e + query_result"
  embedding_generator :: "string \<Rightarrow> 'e + 'v"
  top_k :: int

text \<open>One entry of the list \<open>retrieve\<close> returns (a dict with these four keys).\<close>

record RetrievedDocument =
  rd_text :: string
  rd_source :: pyval
  rd_chunk_index :: pyval
  rd_similarity :: real

text \<open>\<open>k = top_k or self.top_k\<close>: \<open>None\<close> and \<open>0\<close> are both falsy.\<close>

definition effective_k :: "int option \<Rightarrow> int \<Rightarrow> int" where
  "effective_k tk self_top_k =
     (case tk of None \<Rightarrow> self_top_k | Some v \<Rightarrow> if v = 0 then self_top_k else v)"

text \<open>Truth value of \<open>source_filter\<close>: \<open>None\<close> and the empty string are falsy.\<close>

definition filter_given :: "string option \<Rightarrow> bool" where
  "filter_given sf = (case sf of None \<Rightarrow> False | Some s \<Rightarrow> s \<noteq> [])"

text \<open>
  \<open>source_filter and source_filter not in metadata.get('source', '')\<close>.
  The \<open>in\<close> test is evaluated only for a truthy filter; on a value that is not a string
  it raises \<open>TypeError\<close>.
\<close>

definition skip_candidate :: "string option \<Rightarrow> metadata \<Rightarrow> 'e py_error + bool" where
  "skip_candidate sf md =
     (case sf of
        None \<Rightarrow> Inr False
      | Some s \<Rightarrow>
          if s = [] then Inr False
          else (case dict_get md ''source'' (PyStr '''') of
                  PyStr t \<Rightarrow> Inr (\<not> sublist s t)
                | PyInt _ \<Rightarrow> Inl TypeError))"

text \<open>The dict appended for an accepted candidate.\<close>

definition to_doc :: "string \<times> metadata \<times> real \<Rightarrow> RetrievedDocument" where
  "to_doc c =
     (case c of (doc, md, distance) \<Rightarrow>
        \<lparr> rd_text = doc,
          rd_source = dict_get md ''source'' (PyStr ''unknown''),
          rd_chunk_index = dict_get md ''chunk_index'' (PyInt 0),
          rd_similarity = 1 - distance \<rparr>)"

text \<open>
  The \<open>for doc, metadata, distance in zip(...)\<close> loop, with \<open>retrieved_docs\<close> as
  accumulator: \<open>continue\<close> on a rejected candidate, \<open>break\<close> once
  \<open>len(retrieved_docs) >= k\<close> after an append.
\<close>

fun collect ::
  "int \<Rightarrow> string option \<Rightarrow> (string \<times> metadata \<times> real) list \<Rightarrow> RetrievedDocument list
     \<Rightarrow> 'e py_error + RetrievedDocument list" where
  "collect k sf [] retrieved_docs = Inr retrieved_docs"
| "collect k sf (c # rest) retrieved_docs =
     (case skip_candidate sf (fst (snd c)) of
        Inl e \<Rightarrow> Inl e
      | Inr True \<Rightarrow> collect k sf rest retrieved_docs
      | Inr False \<Rightarrow>
          (let retrieved_docs' = retrieved_docs @ [to_doc c]
           in if int (length retrieved_docs') \<ge> k then Inr retrieved_docs'
              else collect k sf rest retrieved_docs'))"

text \<open>The three result lists zipped; \<open>zip\<close> stops at the shortest.\<close>

definition candidates :: "query_result \<Rightarrow> (string \<times> metadata \<times> real) list" where
  "candidates res = zip (documents res) (zip (metadatas res) (distances res))"

definition retrieve ::
  "('v, 'e) DocumentRetriever \<Rightarrow> string \<Rightarrow> int option \<Rightarrow> string option
     \<Rightarrow> 'e py_error + RetrievedDocument list" where
  "retrieve self query tk source_filter =
     (let k = effective_k tk (top_k self)
      in case embedding_generator self query of
           Inl e \<Rightarrow> Inl (Propagated e)
         | Inr query_embedding \<Rightarrow>
             (case vector_store self query_embedding
                     (if filter_given source_filter then k * 2 else k) of
                Inl e \<Rightarrow> Inl (Propagated e)
              | Inr results \<Rightarrow> collect k source_filter (candidates results) []))"

text \<open>A small index used to run \<open>retrieve\<close> on concrete data.\<close>

definition demo_result :: query_result where
  "demo_result =
     \<lparr> documents = [''alpha'', ''beta'', ''gamma''],
       metadatas = [[''source'' \<mapsto> PyStr ''ts_23501.pdf'', ''chunk_index'' \<mapsto> PyInt 0],
                    [''source'' \<mapsto> PyStr ''ts_38300.docx'', ''chunk_index'' \<mapsto> PyInt 4],
                    [''source'' \<mapsto> PyStr ''ts_23502.pdf'', ''chunk_index'' \<mapsto> PyInt 7]],
       distances = [1/4, 1/2, 3/4] \<rparr>"

definition demo_retriever :: "(nat, unit) DocumentRetriever" where
  "demo_retriever =
     \<lparr> vector_store = (\<lambda>emb n. Inr demo_result),
       embedding_generator = (\<lambda>q. Inr (length q)),
       top_k = 5 \<rparr>"

text \<open>
  The property the source filter is meant to establish: the candidate's metadata has a
  string under \<open>'source'\<close> and the filter occurs in it as a substring.
\<close>

definition source_contains :: "string \<Rightarrow> metadata \<Rightarrow> bool" where
  "source_contains s md = (case md ''source'' of Some (PyStr t) \<Rightarrow> sublist s t | _ \<Rightarrow> False)"

text \<open>The documents \<open>retrieve\<close> builds from the first and third entry of the demo index.\<close>

definition demo_doc1 :: RetrievedDocument where
  "demo_doc1 = \<lparr> rd_text = ''alpha'', rd_source = PyStr ''ts_23501.pdf'',
                  rd_chunk_index = PyInt 0, rd_similarity = 3/4 \<rparr>"

definition demo_doc3 :: RetrievedDocument where
  "demo_doc3 = \<lparr> rd_text = ''gamma'', rd_source = PyStr ''ts_23502.pdf'',
                  rd_chunk_index = PyInt 7, rd_similarity = 1/4 \<rparr>"

section \<open>document_processor_UNIFIED.py: format detection and dispatch\<close>

text \<open>
  A \<open>pathlib.Path\<close> as far as the processor reads it: whether it exists on disk, its
  \<open>suffix\<close>, its \<open>name\<close> and \<open>str(path)\<close>.
\<close>

record py_path =
  path_exists :: bool
  path_suffix :: string
  path_name :: string
  path_str :: string

text \<open>
  What \<open>_detect_processors\<close> probes in the runtime environment: whether \<open>pypdf\<close> and
  \<open>docx\<close> import, whether \<open>antiword -v\<close> runs, whether \<open>textract\<close> imports, whether
  \<open>sys.platform == 'win32'\<close> and whether \<open>win32com.client\<close> imports.
\<close>

record environment =
  pypdf_imports :: bool
  docx_imports :: bool
  antiword_runs :: bool
  textract_imports :: bool
  platform_win32 :: bool
  win32com_imports :: bool

text \<open>The dict \<open>available_processors\<close> with its four keys.\<close>

record available_processors =
  pdf :: bool
  docx :: bool
  doc :: bool
  doc_methods :: "string list"

definition detect_processors :: "environment \<Rightarrow> available_processors" where
  "detect_processors env =
     (let doc_methods0 = [];
          doc_methods1 = (if antiword_runs env then doc_methods0 @ [''antiword''] else doc_methods0);
          doc_methods2 = (if textract_imports env then doc_methods1 @ [''textract''] else doc_methods1);
          doc_methods3 =
            (if platform_win32 env
             then (if win32com_imports env then doc_methods2 @ [''win32com''] else doc_methods2)
             else doc_methods2)
      in \<lparr> pdf = pypdf_imports env,
           docx = docx_imports env,
           doc = (length doc_methods3 > 0),
           doc_methods = doc_methods3 \<rparr>)"

text \<open>The processor object: its configuration and the processors detected at construction.\<close>

record UnifiedDocumentProcessor =
  chunk_size :: int
  chunk_overlap :: int
  min_chunk_size :: int
  available :: available_processors

definition init_processor :: "environment \<Rightarrow> int \<Rightarrow> int \<Rightarrow> int \<Rightarrow> UnifiedDocumentProcessor" where
  "init_processor env cs ov mn =
     \<lparr> chunk_size = cs, chunk_overlap = ov, min_chunk_size = mn,
       available = detect_processors env \<rparr>"

text \<open>
  The extraction backends are external.  Each either raises a Python exception (\<open>Inl\<close>)
  or returns: the three converters for legacy \<open>.doc\<close> files return the text, the PDF and
  DOCX parsers (wrapped by \<open>_load_pdf\<close> and \<open>_load_docx\<close>) return text and metadata.
\<close>

record 'e backends =
  antiword :: "py_path \<Rightarrow> 'e py_error + string"
  textract :: "py_path \<Rightarrow> 'e py_error + string"
  win32com :: "py_path \<Rightarrow> 'e py_error + string"
  load_pdf :: "py_path \<Rightarrow> 'e py_error + string \<times> metadata"
  load_docx :: "py_path \<Rightarrow> 'e py_error + string \<times> metadata"

text \<open>
  A call returns the list of backends it invoked, in order, next to its result.
\<close>

type_synonym 'e loaded = "string list \<times> ('e py_error + string \<times> metadata)"

definition doc_metadata :: "py_path \<Rightarrow> string \<Rightarrow> metadata" where
  "doc_metadata file_path method =
     [''source'' \<mapsto> PyStr (path_name file_path),
      ''file_path'' \<mapsto> PyStr (path_str file_path),
      ''format'' \<mapsto> PyStr ''doc'',
      ''extraction_method'' \<mapsto> PyStr method]"

text \<open>
  The tail of \<open>_load_doc\<close> after a backend was run: an exception of the backend leaves the
  function at once and unchanged (there is no \<open>try\<close> around the call), a text is returned
  with the metadata naming the method.
\<close>

definition doc_result :: "py_path \<Rightarrow> string \<Rightarrow> 'e py_error + string \<Rightarrow> 'e loaded" where
  "doc_result file_path method r =
     ([method],
      case r of Inl e \<Rightarrow> Inl e
              | Inr text \<Rightarrow> Inr (text, doc_metadata file_path method))"

definition load_doc :: "UnifiedDocumentProcessor \<Rightarrow> 'e backends \<Rightarrow> py_path \<Rightarrow> 'e loaded" where
  "load_doc self bk file_path =
     (if ''antiword'' \<in> set (doc_methods (available self)) then
        doc_result file_path ''antiword'' (antiword bk file_path)
      else if ''textract'' \<in> set (doc_methods (available self)) then
        doc_result file_path ''textract'' (textract bk file_path)
      else if ''win32com'' \<in> set (doc_methods (available self)) then
        doc_result file_path ''win32com'' (win32com bk file_path)
      else ([], Inl RuntimeError))"

text \<open>
  \<open>str.lower()\<close> on code points below 256: \<open>A\<close>-\<open>Z\<close> and the Latin-1 capitals
  (\<open>0xC0\<close>-\<open>0xDE\<close> without the multiplication sign \<open>0xD7\<close>) move up by 32.
\<close>

definition lower_char :: "char \<Rightarrow> char" where
  "lower_char c =
     (let n = (of_char c :: nat)
      in if (65 \<le> n \<and> n \<le> 90) \<or> (192 \<le> n \<and> n \<le> 222 \<and> n \<noteq> 215)
         then char_of (n + 32) else c)"

definition lower :: "string \<Rightarrow> string" where
  "lower s = map lower_char s"

text \<open>
  \<open>return self._load_pdf(file_path)\<close> and \<open>return self._load_docx(file_path)\<close>: the loader is
  invoked and what it returns or raises is what \<open>load_document\<close> returns or raises.
\<close>

definition parser_result :: "string \<Rightarrow> 'e py_error + string \<times> metadata \<Rightarrow> 'e loaded" where
  "parser_result name r = ([name], r)"

definition load_document :: "UnifiedDocumentProcessor \<Rightarrow> 'e backends \<Rightarrow> py_path \<Rightarrow> 'e loaded" where
  "load_document self bk file_path =
     (if \<not> path_exists file_path then ([], Inl FileNotFoundError)
      else
        let file_ext = lower (path_suffix file_path)
        in if file_ext = ''.pdf'' then
             (if \<not> pdf (available self) then ([], Inl RuntimeError)
              else parser_result ''pypdf'' (load_pdf bk file_path))
           else if file_ext = ''.docx'' then
             (if \<not> docx (available self) then ([], Inl RuntimeError)
              else parser_result ''python-docx'' (load_docx bk file_path))
           else if file_ext = ''.doc'' then
             (if \<not> doc (available self) then ([], Inl RuntimeError)
              else load_doc self bk file_path)
           else ([], Inl ValueError))"

text \<open>
  The fixed preference list of \<open>_load_doc\<close>, the probe that decides at construction
  whether a method is detected, and the backend a method name stands for.
\<close>

definition doc_preference :: "string list" where
  "doc_preference = [''antiword'', ''textract'', ''win32com'']"

definition detected :: "environment \<Rightarrow> string \<Rightarrow> bool" where
  "detected env m =
     (if m = ''antiword'' then antiword_runs env
      else if m = ''textract'' then textract_imports env
      else if m = ''win32com'' then platform_win32 env \<and> win32com_imports env
      else False)"

definition run_backend :: "'e backends \<Rightarrow> string \<Rightarrow> py_path \<Rightarrow> 'e py_error + string" where
  "run_backend bk m =
     (if m = ''antiword'' then antiword bk
      else if m = ''textract'' then textract bk
      else win32com bk)"

definition format_detected :: "available_processors \<Rightarrow> string \<Rightarrow> bool" where
  "format_detected av file_ext =
     (if file_ext = ''.pdf'' then pdf av
      else if file_ext = ''.docx'' then docx av
      else if file_ext = ''.doc'' then doc av
      else False)"

text \<open>
  Concrete data for the dispatcher: an environment in which every probe of a Linux host
  succeeds, three existing files, and backends of which the DOCX parser rejects its file
  with \<open>ValueError\<close> (as a parser does on a file that is not a Word document).
\<close>

definition full_environment :: environment where
  "full_environment =
     \<lparr> pypdf_imports = True, docx_imports = True, antiword_runs = True,
       textract_imports = True, platform_win32 = False, win32com_imports = False \<rparr>"

definition pdf_path :: py_path where
  "pdf_path =
     \<lparr> path_exists = True, path_suffix = ''.PDF'', path_name = ''REPORT.PDF'',
       path_str = ''data/raw/REPORT.PDF'' \<rparr>"

definition docx_path :: py_path where
  "docx_path =
     \<lparr> path_exists = True, path_suffix = ''.docx'', path_name = ''notes.docx'',
       path_str = ''data/raw/notes.docx'' \<rparr>"

definition doc_path :: py_path where
  "doc_path =
     \<lparr> path_exists = True, path_suffix = ''.doc'', path_name = ''old.doc'',
       path_str = ''data/raw/old.doc'' \<rparr>"

definition unreadable_backends :: "unit backends" where
  "unreadable_backends =
     \<lparr> antiword = (\<lambda>p. Inr ''text''),
       textract = (\<lambda>p. Inr ''text''),
       win32com = (\<lambda>p. Inr ''text''),
       load_pdf = (\<lambda>p. Inr (''text of the report'', Map.empty)),
       load_docx = (\<lambda>p. Inl ValueError) \<rparr>"

section \<open>Regular expressions as the processor uses them\<close>

text \<open>
  Character classes of Python's \<open>re\<close> on \<open>str\<close> patterns, for code points below 256:
  \<open>\s\<close> (the same characters \<open>str.strip()\<close> removes), \<open>\d\<close>, \<open>\w\<close>, and \<open>.\<close>, which
  matches everything but a newline.
\<close>

definition newline :: char where
  "newline = CHR 0x0A"

definition is_space :: "char \<Rightarrow> bool" where
  "is_space c =
     (let n = (of_char c :: nat)
      in (9 \<le> n \<and> n \<le> 13) \<or> (28 \<le> n \<and> n \<le> 32) \<or> n = 133 \<or> n = 160)"

definition is_digit :: "char \<Rightarrow> bool" where
  "is_digit c = (let n = (of_char c :: nat) in 48 \<le> n \<and> n \<le> 57)"

definition is_word :: "char \<Rightarrow> bool" where
  "is_word c =
     (let n = (of_char c :: nat)
      in (48 \<le> n \<and> n \<le> 57) \<or> (65 \<le> n \<and> n \<le> 90) \<or> n = 95 \<or> (97 \<le> n \<and> n \<le> 122)
         \<or> n = 170 \<or> n = 178 \<or> n = 179 \<or> n = 181 \<or> n = 185 \<or> n = 186
         \<or> (188 \<le> n \<and> n \<le> 190) \<or> (192 \<le> n \<and> n \<le> 214) \<or> (216 \<le> n \<and> n \<le> 246)
         \<or> 248 \<le> n)"

definition not_newline :: "char \<Rightarrow> bool" where
  "not_newline c = (c \<noteq> newline)"

text \<open>
  The patterns of this file are sequences of items, each a character class taken once,
  or repeated greedily (\<open>*\<close>, \<open>+\<close>) or lazily (\<open>*?\<close>).
\<close>

datatype rx_item =
    One "char \<Rightarrow> bool"
  | Star "char \<Rightarrow> bool"
  | Plus "char \<Rightarrow> bool"
  | LazyStar "char \<Rightarrow> bool"

type_synonym pattern = "rx_item list"

text \<open>
  Backtracking matching at the start of \<open>s\<close>.  \<open>item_rests i s\<close> lists what can remain of
  \<open>s\<close> after the item, in the order the matcher tries: a greedy repetition tries the
  longest run first, a lazy one the shortest.
\<close>

fun item_rests :: "rx_item \<Rightarrow> string \<Rightarrow> string list" where
  "item_rests (One P) s = (case s of [] \<Rightarrow> [] | c # cs \<Rightarrow> if P c then [cs] else [])"
| "item_rests (Star P) s = map (\<lambda>k. drop k s) (rev [0 ..< Suc (length (takeWhile P s))])"
| "item_rests (Plus P) s = map (\<lambda>k. drop k s) (rev [1 ..< Suc (length (takeWhile P s))])"
| "item_rests (LazyStar P) s = map (\<lambda>k. drop k s) [0 ..< Suc (length (takeWhile P s))]"

fun rx_rests :: "pattern \<Rightarrow> string \<Rightarrow> string list" where
  "rx_rests [] s = [s]"
| "rx_rests (i # is) s = concat (map (rx_rests is) (item_rests i s))"

text \<open>
  The scan shared by \<open>re.sub\<close> and \<open>re.finditer\<close>: at each position the first way to
  match wins; after an empty match the next match at the same position must not be
  empty (\<open>must_advance\<close>); where nothing matches the scan moves on by one character.
\<close>

definition rx_match :: "bool \<Rightarrow> pattern \<Rightarrow> string \<Rightarrow> string option" where
  "rx_match must_advance pat s =
     (case (if must_advance then filter (\<lambda>r. length r < length s) (rx_rests pat s)
            else rx_rests pat s) of
        [] \<Rightarrow> None
      | r # _ \<Rightarrow> Some r)"

function re_sub_from :: "bool \<Rightarrow> pattern \<Rightarrow> string \<Rightarrow> string \<Rightarrow> string" where
  "re_sub_from must_advance pat repl s =
     (case rx_match must_advance pat s of
        Some r \<Rightarrow>
          if length r < length s then repl @ re_sub_from False pat repl r
          else if must_advance then (case s of [] \<Rightarrow> [] | c # cs \<Rightarrow> c # re_sub_from False pat repl cs)
          else repl @ re_sub_from True pat repl s
      | None \<Rightarrow> (case s of [] \<Rightarrow> [] | c # cs \<Rightarrow> c # re_sub_from False pat repl cs))"
  by pat_completeness auto
termination
  by (relation "measure (\<lambda>(b, pat, repl, s). 2 * length s + (if b then 0 else 1))") auto

declare re_sub_from.simps [simp del]

text \<open>\<open>re.sub(pattern, repl, text)\<close>\<close>

definition re_sub :: "pattern \<Rightarrow> string \<Rightarrow> string \<Rightarrow> string" where
  "re_sub pat repl s = re_sub_from False pat repl s"

text \<open>
  \<open>[m.end() for m in re.finditer(pattern, text)]\<close>; \<open>pos\<close> is the offset of \<open>s\<close> in the
  text searched.
\<close>

function finditer_ends_from :: "bool \<Rightarrow> pattern \<Rightarrow> string \<Rightarrow> nat \<Rightarrow> nat list" where
  "finditer_ends_from must_advance pat s pos =
     (case rx_match must_advance pat s of
        Some r \<Rightarrow>
          if length r < length s
          then (pos + (length s - length r))
               # finditer_ends_from False pat r (pos + (length s - length r))
          else if must_advance
          then (case s of [] \<Rightarrow> [] | c # cs \<Rightarrow> finditer_ends_from False pat cs (Suc pos))
          else pos # finditer_ends_from True pat s pos
      | None \<Rightarrow> (case s of [] \<Rightarrow> [] | c # cs \<Rightarrow> finditer_ends_from False pat cs (Suc pos)))"
  by pat_completeness auto
termination
  by (relation "measure (\<lambda>(b, pat, s, pos). 2 * length s + (if b then 0 else 1))") auto

declare finditer_ends_from.simps [simp del]

definition finditer_ends :: "pattern \<Rightarrow> string \<Rightarrow> nat list" where
  "finditer_ends pat s = finditer_ends_from False pat s 0"

section \<open>document_processor_UNIFIED.py: clean_text\<close>

text \<open>The four patterns of \<open>clean_text\<close>, in the order they are applied.\<close>

definition rx_whitespace :: pattern where
  \<comment> \<open>\<open>\s+\<close>\<close>
  "rx_whitespace = [Plus is_space]"

definition rx_blank_lines :: pattern where
  \<comment> \<open>\<open>\n\s*\n\s*\n+\<close>\<close>
  "rx_blank_lines =
     [One (\<lambda>c. c = newline), Star is_space, One (\<lambda>c. c = newline), Star is_space,
      Plus (\<lambda>c. c = newline)]"

definition rx_page_header :: pattern where
  \<comment> \<open>\<open>\n\d+\s+3GPP.*?\n\<close>\<close>
  "rx_page_header =
     [One (\<lambda>c. c = newline), Plus is_digit, Plus is_space,
      One (\<lambda>c. c = CHR ''3''), One (\<lambda>c. c = CHR ''G''), One (\<lambda>c. c = CHR ''P''),
      One (\<lambda>c. c = CHR ''P''), LazyStar not_newline, One (\<lambda>c. c = newline)]"

definition allowed :: "char \<Rightarrow> bool" where
  "allowed c = (is_word c \<or> is_space c \<or> c \<in> set ''.,;:()[]-/'' \<or> c = newline \<or> c \<in> set ''#|'')"

definition rx_disallowed :: pattern where
  \<comment> \<open>\<open>[^\w\s.,;:()\[\]\-/\n#|]\<close>\<close>
  "rx_disallowed = [One (\<lambda>c. \<not> allowed c)]"

text \<open>\<open>str.strip()\<close>\<close>

definition strip :: "string \<Rightarrow> string" where
  "strip s = rev (dropWhile is_space (rev (dropWhile is_space s)))"

definition clean_text :: "string \<Rightarrow> string" where
  "clean_text text0 =
     (let text1 = re_sub rx_whitespace '' '' text0;
          text2 = re_sub rx_blank_lines [newline, newline] text1;
          text3 = re_sub rx_page_header [newline] text2;
          text4 = re_sub rx_disallowed [] text3
      in strip text4)"


definition collapse :: "string \<Rightarrow> string" where
  "collapse s = re_sub rx_whitespace '' '' s"

section \<open>document_processor_UNIFIED.py: chunk_text\<close>

record DocumentChunk =
  dc_text :: string
  dc_metadata :: metadata
  dc_chunk_id :: int

text \<open>
  \<open>text[i:j]\<close> for Python integers: a negative index counts from the end, and both
  indices are clamped to the string.
\<close>

definition slice_index :: "int \<Rightarrow> int \<Rightarrow> int" where
  "slice_index n i = (if i < 0 then max (i + n) 0 else min i n)"

definition py_slice :: "'a list \<Rightarrow> int \<Rightarrow> int \<Rightarrow> 'a list" where
  "py_slice xs i j =
     (let n = int (length xs); lo = slice_index n i; hi = slice_index n j
      in take (nat (hi - lo)) (drop (nat lo) xs))"

definition rx_sentence_end :: pattern where
  \<comment> \<open>\<open>[.!?]\s+\<close>\<close>
  "rx_sentence_end = [One (\<lambda>c. c \<in> set ''.!?''), Plus is_space]"

text \<open>
  The first half of a loop iteration: the tentative \<open>end\<close>, moved to the last sentence
  ending found in \<open>text[search_start:end + 100]\<close> when \<open>end < len(text)\<close>.
  \<open>snapped\<close> tells whether the move happened.
\<close>

definition sentence_endings :: "UnifiedDocumentProcessor \<Rightarrow> string \<Rightarrow> int \<Rightarrow> nat list" where
  "sentence_endings self text start =
     (let end = start + chunk_size self;
          search_start = max start (end - 100);
          search_text = py_slice text search_start (end + 100)
      in finditer_ends rx_sentence_end search_text)"

definition snapped :: "UnifiedDocumentProcessor \<Rightarrow> string \<Rightarrow> int \<Rightarrow> bool" where
  "snapped self text start =
     (start + chunk_size self < int (length text) \<and> sentence_endings self text start \<noteq> [])"

definition chunk_end :: "UnifiedDocumentProcessor \<Rightarrow> string \<Rightarrow> int \<Rightarrow> int" where
  "chunk_end self text start =
     (let end = start + chunk_size self
      in if end < int (length text) then
           (let search_start = max start (end - 100);
                sentence_endings = sentence_endings self text start
            in if sentence_endings \<noteq> [] then
                 (let last_sentence = last sentence_endings
                  in search_start + int last_sentence)
               else end)
         else end)"

text \<open>The chunk built when the stripped slice is long enough.\<close>

definition make_chunk :: "metadata \<Rightarrow> int \<Rightarrow> int \<Rightarrow> int \<Rightarrow> string \<Rightarrow> DocumentChunk" where
  "make_chunk md chunk_id start end chunk_text =
     \<lparr> dc_text = chunk_text,
       dc_metadata = md(''chunk_index'' \<mapsto> PyInt chunk_id,
                        ''start_char'' \<mapsto> PyInt start,
                        ''end_char'' \<mapsto> PyInt end,
                        ''chunk_size'' \<mapsto> PyInt (int (length chunk_text))),
       dc_chunk_id = chunk_id \<rparr>"

text \<open>\<open>start = end - self.chunk_overlap\<close>, then \<open>if start <= 0: start = 1\<close>.\<close>

definition next_start :: "UnifiedDocumentProcessor \<Rightarrow> int \<Rightarrow> int" where
  "next_start self end =
     (let start = end - chunk_overlap self in if start \<le> 0 then 1 else start)"

text \<open>
  The \<open>while start < len(text)\<close> loop.  It need not end, so it is run with fuel: one unit
  per iteration, \<open>None\<close> when the fuel is used up before the loop condition fails.
\<close>

fun chunk_loop ::
  "nat \<Rightarrow> UnifiedDocumentProcessor \<Rightarrow> string \<Rightarrow> metadata \<Rightarrow> int \<Rightarrow> int \<Rightarrow> DocumentChunk list
     \<Rightarrow> DocumentChunk list option" where
  "chunk_loop 0 self text md start chunk_id chunks =
     (if start < int (length text) then None else Some chunks)"
| "chunk_loop (Suc fuel) self text md start chunk_id chunks =
     (if start < int (length text) then
        (let end = chunk_end self text start;
             chunk_text = strip (py_slice text start end)
         in if int (length chunk_text) \<ge> min_chunk_size self
            then chunk_loop fuel self text md (next_start self end) (chunk_id + 1)
                   (chunks @ [make_chunk md chunk_id start end chunk_text])
            else chunk_loop fuel self text md (next_start self end) chunk_id chunks)
      else Some chunks)"

definition chunk_text ::
  "nat \<Rightarrow> UnifiedDocumentProcessor \<Rightarrow> string \<Rightarrow> metadata \<Rightarrow> DocumentChunk list option" where
  "chunk_text fuel self text0 md = chunk_loop fuel self (clean_text text0) md 0 0 []"

text \<open>Reading the offsets back from a chunk's metadata.\<close>

definition meta_int :: "DocumentChunk \<Rightarrow> string \<Rightarrow> int option" where
  "meta_int c key = (case dc_metadata c key of Some (PyInt i) \<Rightarrow> Some i | _ \<Rightarrow> None)"

text \<open>Configurations and inputs used below.\<close>

definition test_processor :: UnifiedDocumentProcessor where
  \<comment> \<open>the configuration of the repository's chunking test: 50, 10, 20\<close>
  "test_processor =
     \<lparr> chunk_size = 50, chunk_overlap = 10, min_chunk_size = 20,
       available = \<lparr> pdf = True, docx = True, doc = False, doc_methods = [] \<rparr> \<rparr>"

definition stuck_text :: string where
  "stuck_text = ''a. '' @ replicate 60 (CHR ''b'')"

definition page_header_text :: string where
  "page_header_text = ''x'' @ [newline] @ ''12 3GPP TS 23.501'' @ [newline] @ ''y''"

text \<open>
  Vocabulary for the properties of the sentence search: a sentence terminator, a match
  of \<open>[.!?]\s+\<close> starting at the head of \<open>c # cs\<close>, the sentence endings of a string, and
  the segment \<open>t[i:j]\<close> for natural numbers.
\<close>

definition terminator :: "char \<Rightarrow> bool" where
  "terminator c = (c \<in> set ''.!?'')"

definition match_here :: "char \<Rightarrow> string \<Rightarrow> bool" where
  "match_here c cs = (terminator c \<and> cs \<noteq> [] \<and> is_space (hd cs))"

abbreviation sentence_ends :: "string \<Rightarrow> nat list" where
  "sentence_ends s \<equiv> finditer_ends rx_sentence_end s"

definition seg :: "'a list \<Rightarrow> nat \<Rightarrow> nat \<Rightarrow> 'a list" where
  "seg t i j = take (j - i) (drop i t)"

text \<open>The offsets a chunk records in its metadata.\<close>

definition start_char :: "DocumentChunk \<Rightarrow> int option" where
  "start_char c = meta_int c ''start_char''"


text \<open>Two more inputs: four sentences, and 120 letters without any sentence ending.\<close>

definition sentences_text :: string where
  "sentences_text = concat (replicate 4 ''This is a test sentence. '')"


text \<open>
  The list \<open>chunks\<close> as the loop has built it after at most \<open>n\<close> iterations (or when the
  loop condition fails earlier): the chunks in the order they are appended, whether or
  not the loop ever ends.  The body is the body of \<open>chunk_loop\<close>.
\<close>

fun chunks_after ::
  "nat \<Rightarrow> UnifiedDocumentProcessor \<Rightarrow> string \<Rightarrow> metadata \<Rightarrow> int \<Rightarrow> int \<Rightarrow> DocumentChunk list
     \<Rightarrow> DocumentChunk list" where
  "chunks_after 0 self text md start chunk_id chunks = chunks"
| "chunks_after (Suc n) self text md start chunk_id chunks =
     (if start < int (length text) then
        (let end = chunk_end self text start;
             chunk_text = strip (py_slice text start end)
         in if int (length chunk_text) \<ge> min_chunk_size self
            then chunks_after n self text md (next_start self end) (chunk_id + 1)
                   (chunks @ [make_chunk md chunk_id start end chunk_text])
            else chunks_after n self text md (next_start self end) chunk_id chunks)
      else chunks)"

definition eager_processor :: UnifiedDocumentProcessor where
  \<comment> \<open>as \<open>test_processor\<close>, but every non-empty slice is kept: 50, 10, 1\<close>
  "eager_processor =
     \<lparr> chunk_size = 50, chunk_overlap = 10, min_chunk_size = 1,
       available = \<lparr> pdf = True, docx = True, doc = False, doc_methods = [] \<rparr> \<rparr>"

section \<open>Properties of the retriever\<close>

lemma skip_candidate_accepts:
  "s \<noteq> [] \<Longrightarrow> (skip_candidate (Some s) md = (Inr False :: 'e py_error + bool)) = source_contains s md"
  by (auto simp: skip_candidate_def source_contains_def dict_get_def split: option.splits pyval.splits)

lemma sorted_wrt_subseq: "subseq xs ys \<Longrightarrow> sorted_wrt R ys \<Longrightarrow> sorted_wrt R xs"
proof (induction rule: list_emb.induct)
  case (list_emb_Nil ys)
  then show ?case by simp
next
  case (list_emb_Cons xs ys y)
  then show ?case by simp
next
  case (list_emb_Cons2 x y xs ys)
  then show ?case using subseq_order.dual_order.trans[of xs ys] 
    by (auto dest: list_emb_set)
qed

lemma collect_take:
  "1 \<le> k \<Longrightarrow> int (length acc) < k \<Longrightarrow> collect k sf cs acc = (Inr docs :: 'e py_error + RetrievedDocument list) \<Longrightarrow>
   docs = take (nat k) (acc @ map to_doc (filter (\<lambda>c. skip_candidate sf (fst (snd c)) = (Inr False :: 'e py_error + bool)) cs))"
proof (induction cs arbitrary: acc)
  case Nil
  then show ?case by simp
next
  case (Cons c cs)
  show ?case
  proof (cases "skip_candidate sf (fst (snd c)) :: 'e py_error + bool")
    case (Inl e)
    with Cons.prems show ?thesis by simp
  next
    case (Inr b)
    show ?thesis
    proof (cases b)
      case True
      with Inr Cons show ?thesis by simp
    next
      case False
      show ?thesis
      proof (cases "int (length (acc @ [to_doc c])) \<ge> k")
        case True
        with Inr False Cons.prems have "docs = acc @ [to_doc c]" by simp
        moreover from True Cons.prems have "nat k = Suc (length acc)" by simp
        ultimately show ?thesis using Inr False by simp
      next
        case F: False
        with Inr False Cons.prems have "collect k sf cs (acc @ [to_doc c]) = (Inr docs :: 'e py_error + RetrievedDocument list)" by simp
        from Cons.IH[OF Cons.prems(1) _ this] F Inr False show ?thesis by simp
      qed
    qed
  qed
qed

lemma collect_subseq:
  "collect k sf cs acc = (Inr docs :: 'e py_error + RetrievedDocument list) \<Longrightarrow>
   \<exists>cs'. subseq cs' cs \<and> docs = acc @ map to_doc cs'"
proof (induction cs arbitrary: acc)
  case Nil
  then show ?case by simp
next
  case (Cons c cs)
  show ?case
  proof (cases "skip_candidate sf (fst (snd c)) :: 'e py_error + bool")
    case (Inl e)
    with Cons.prems show ?thesis by simp
  next
    case (Inr b)
    show ?thesis
    proof (cases b)
      case True
      with Inr Cons.prems have "collect k sf cs acc = (Inr docs :: 'e py_error + RetrievedDocument list)" by simp
      from Cons.IH[OF this] obtain cs' where "subseq cs' cs" "docs = acc @ map to_doc cs'" by blast
      then show ?thesis by (intro exI[of _ cs']) (simp add: list_emb_Cons)
    next
      case False
      show ?thesis
      proof (cases "int (length (acc @ [to_doc c])) \<ge> k")
        case True
        with Inr False Cons.prems have "docs = acc @ map to_doc [c]" by simp
        then show ?thesis by (intro exI[of _ "[c]"]) simp
      next
        case F: False
        with Inr False Cons.prems have "collect k sf cs (acc @ [to_doc c]) = (Inr docs :: 'e py_error + RetrievedDocument list)" by simp
        from Cons.IH[OF this] obtain cs' where "subseq cs' cs" "docs = (acc @ [to_doc c]) @ map to_doc cs'" by blast
        then show ?thesis by (intro exI[of _ "c # cs'"]) simp
      qed
    qed
  qed
qed

lemma candidates_distances:
  "\<exists>n. map (\<lambda>c. snd (snd c)) (candidates res) = take n (distances res)"
proof -
  have "map (\<lambda>c. snd (snd c)) (candidates res) = map snd (map snd (candidates res))"
    by simp
  also have "map snd (candidates res) = take (min (length (documents res)) (length (zip (metadatas res) (distances res)))) (zip (metadatas res) (distances res))"
    unfolding candidates_def by (rule map_snd_zip_take)
  also have "map snd \<dots> = take (min (length (documents res)) (length (zip (metadatas res) (distances res)))) (map snd (zip (metadatas res) (distances res)))"
    by (rule take_map[symmetric])
  also have "map snd (zip (metadatas res) (distances res)) = take (min (length (metadatas res)) (length (distances res))) (distances res)"
    by (rule map_snd_zip_take)
  finally show ?thesis by (simp only: take_take) blast
qed

text \<open>
  Claim C6.  If every answer of the index lists its distances in ascending order, then
  whenever \<open>retrieve\<close> returns, the returned documents are built, in order, from a
  subsequence of the candidates, each carries \<open>similarity = 1 - distance\<close> of its
  candidate, and the similarities are non-increasing along the list.
\<close>

theorem retrieve_similarity_order:
  fixes self :: "('v, 'e) DocumentRetriever"
  assumes ascending: "\<And>emb n res. vector_store self emb n = Inr res \<Longrightarrow> sorted (distances res)"
    and returned: "retrieve self query tk source_filter = Inr docs"
  shows "\<exists>emb n res cs.
           embedding_generator self query = Inr emb
         \<and> vector_store self emb n = Inr res
         \<and> subseq cs (candidates res)
         \<and> docs = map to_doc cs
         \<and> map rd_similarity docs = map (\<lambda>c. 1 - snd (snd c)) cs
         \<and> sorted_wrt (\<ge>) (map rd_similarity docs)"
proof -
  let ?k = "effective_k tk (top_k self)"
  let ?n = "if filter_given source_filter then ?k * 2 else ?k"
  from returned obtain emb where emb: "embedding_generator self query = Inr emb"
    by (auto simp: retrieve_def Let_def split: sum.splits)
  from returned emb obtain res where res: "vector_store self emb ?n = Inr res"
    by (auto simp: retrieve_def Let_def split: sum.splits)
  from returned emb res
  have "collect ?k source_filter (candidates res) [] = (Inr docs :: 'e py_error + RetrievedDocument list)"
    by (simp add: retrieve_def Let_def)
  from collect_subseq[OF this] obtain cs where cs: "subseq cs (candidates res)" "docs = map to_doc cs"
    by auto
  have sims: "map rd_similarity docs = map (\<lambda>c. 1 - snd (snd c)) cs"
    by (simp add: cs(2) to_doc_def split_def)
  from candidates_distances obtain m where "map (\<lambda>c. snd (snd c)) (candidates res) = take m (distances res)" ..
  moreover have "sorted (take m (distances res))"
    using ascending[OF res] by (rule sorted_wrt_take)
  ultimately have "sorted (map (\<lambda>c. snd (snd c)) (candidates res))" by simp
  moreover have "subseq (map (\<lambda>c. snd (snd c)) cs) (map (\<lambda>c. snd (snd c)) (candidates res))"
    using cs(1) by (rule subseq_map)
  ultimately have "sorted (map (\<lambda>c. snd (snd c)) cs)"
    by (rule sorted_wrt_subseq[rotated])
  then have "sorted_wrt (\<ge>) (map (\<lambda>c. 1 - snd (snd c)) cs)"
    by (simp add: sorted_wrt_map)
  with sims have "sorted_wrt (\<ge>) (map rd_similarity docs)" by simp
  with emb res cs sims show ?thesis by blast
qed

lemma collect_floor:
  assumes K: "K = max 1 k"
  shows "(collect k sf cs acc :: 'e py_error + RetrievedDocument list) = collect K sf cs acc"
proof (induction cs arbitrary: acc)
  case Nil
  show ?case by simp
next
  case (Cons c cs)
  have stop: "(k \<le> int (length (acc @ [to_doc c]))) = (K \<le> int (length (acc @ [to_doc c])))"
    using K by simp
  have ih: "(collect k sf cs a :: 'e py_error + RetrievedDocument list) = collect K sf cs a" for a
    by (rule Cons.IH)
  show ?case
    by (simp only: collect.simps Let_def stop ih)
qed

lemma collect_prefix:
  assumes "collect k sf cs [] = (Inr docs :: 'e py_error + RetrievedDocument list)"
  shows "docs = take (nat (max 1 k))
           (map to_doc (filter (\<lambda>c. skip_candidate sf (fst (snd c)) = (Inr False :: 'e py_error + bool)) cs))"
proof -
  have "(collect k sf cs [] :: 'e py_error + RetrievedDocument list) = collect (max 1 k) sf cs []"
    by (rule collect_floor) simp
  with assms have "collect (max 1 k) sf cs [] = (Inr docs :: 'e py_error + RetrievedDocument list)"
    by simp
  from collect_take[OF _ _ this] show ?thesis by simp
qed

text \<open>
  Claim C7, amended.  For a non-empty \<open>source_filter = s\<close>, whenever \<open>retrieve\<close> returns,
  every returned document's \<open>source\<close> contains \<open>s\<close> and the result is a prefix, in the
  index's order, of the candidates whose \<open>source\<close> contains \<open>s\<close>.  Accumulation stops at
  the effective \<open>k = top_k or self.top_k\<close>: when \<open>k\<close> is at least 1 the result is the first
  \<open>k\<close> of those candidates and has at most \<open>k\<close> entries.
\<close>

theorem retrieve_source_filter:
  fixes self :: "('v, 'e) DocumentRetriever"
  assumes nonempty: "s \<noteq> []"
    and returned: "retrieve self query tk (Some s) = Inr docs"
  shows "\<exists>emb res.
           embedding_generator self query = Inr emb
         \<and> vector_store self emb (effective_k tk (top_k self) * 2) = Inr res
         \<and> (\<forall>d \<in> set docs. \<exists>t. rd_source d = PyStr t \<and> sublist s t)
         \<and> (\<exists>n. docs = take n
                (map to_doc (filter (\<lambda>c. source_contains s (fst (snd c))) (candidates res))))
         \<and> (1 \<le> effective_k tk (top_k self) \<longrightarrow>
               docs = take (nat (effective_k tk (top_k self)))
                 (map to_doc (filter (\<lambda>c. source_contains s (fst (snd c))) (candidates res)))
               \<and> int (length docs) \<le> effective_k tk (top_k self))"
proof -
  let ?k = "effective_k tk (top_k self)"
  from returned obtain emb where emb: "embedding_generator self query = Inr emb"
    by (auto simp: retrieve_def Let_def split: sum.splits)
  from nonempty have fg: "filter_given (Some s)" by (simp add: filter_given_def)
  from returned emb fg obtain res where res: "vector_store self emb (?k * 2) = Inr res"
    by (auto simp: retrieve_def Let_def split: sum.splits)
  let ?accepted = "map to_doc (filter (\<lambda>c. source_contains s (fst (snd c))) (candidates res))"
  from returned emb res fg
  have "collect ?k (Some s) (candidates res) [] = (Inr docs :: 'e py_error + RetrievedDocument list)"
    by (simp add: retrieve_def Let_def)
  from collect_prefix[OF this]
  have docs: "docs = take (nat (max 1 ?k)) ?accepted"
    by (simp add: skip_candidate_accepts[OF nonempty])
  then have prefix: "\<exists>n. docs = take n ?accepted" by blast
  have bounded: "1 \<le> ?k \<longrightarrow> docs = take (nat ?k) ?accepted \<and> int (length docs) \<le> ?k"
  proof
    assume k1: "1 \<le> ?k"
    then have "max 1 ?k = ?k" by simp
    with docs have d: "docs = take (nat ?k) ?accepted" by simp
    have "int (length (take (nat ?k) ?accepted)) \<le> ?k" using k1 by simp
    with d show "docs = take (nat ?k) ?accepted \<and> int (length docs) \<le> ?k" by simp
  qed
  have contains: "\<forall>d \<in> set docs. \<exists>t. rd_source d = PyStr t \<and> sublist s t"
  proof
    fix d
    assume "d \<in> set docs"
    with docs have "d \<in> set ?accepted"
      by (auto dest: in_set_takeD)
    then obtain c where "source_contains s (fst (snd c))" "d = to_doc c" by auto
    then show "\<exists>t. rd_source d = PyStr t \<and> sublist s t"
      by (cases c) (auto simp: source_contains_def to_doc_def dict_get_def split: option.splits pyval.splits)
  qed
  have "embedding_generator self query = Inr emb
      \<and> vector_store self emb (?k * 2) = Inr res
      \<and> (\<forall>d \<in> set docs. \<exists>t. rd_source d = PyStr t \<and> sublist s t)
      \<and> (\<exists>n. docs = take n ?accepted)
      \<and> (1 \<le> ?k \<longrightarrow> docs = take (nat ?k) ?accepted \<and> int (length docs) \<le> ?k)"
    by (rule conjI[OF emb conjI[OF res conjI[OF contains conjI[OF prefix bounded]]]])
  then show ?thesis by - (rule exI[of _ emb], rule exI[of _ res], assumption)
qed

lemma sublist_pdf1: "sublist ''pdf'' ''ts_23501.pdf''"
  by code_simp

lemma sublist_pdf2: "\<not> sublist ''pdf'' ''ts_38300.docx''"
  by code_simp

lemma sublist_pdf3: "sublist ''pdf'' ''ts_23502.pdf''"
  by code_simp

lemma demo_retrieve_pdf:
  "retrieve demo_retriever ''q'' None (Some ''pdf'') = Inr [demo_doc1, demo_doc3]"
  by (simp add: retrieve_def effective_k_def demo_retriever_def demo_result_def candidates_def
      filter_given_def skip_candidate_def dict_get_def to_doc_def demo_doc1_def demo_doc3_def
      sublist_pdf1 sublist_pdf2 sublist_pdf3)

lemma demo_retrieve_pdf_zero:
  "retrieve demo_retriever ''q'' (Some 0) (Some ''pdf'') = Inr [demo_doc1, demo_doc3]"
  by (simp add: retrieve_def effective_k_def demo_retriever_def demo_result_def candidates_def
      filter_given_def skip_candidate_def dict_get_def to_doc_def demo_doc1_def demo_doc3_def
      sublist_pdf1 sublist_pdf2 sublist_pdf3)

lemma demo_retrieve_pdf_one:
  "retrieve demo_retriever ''q'' (Some 1) (Some ''pdf'') = Inr [demo_doc1]"
  by (simp add: retrieve_def effective_k_def demo_retriever_def demo_result_def candidates_def
      filter_given_def skip_candidate_def dict_get_def to_doc_def demo_doc1_def demo_doc3_def
      sublist_pdf1 sublist_pdf2 sublist_pdf3)

lemma demo_ascending: "vector_store demo_retriever emb n = Inr res \<Longrightarrow> sorted (distances res)"
  by (auto simp: demo_retriever_def demo_result_def)

text \<open>Claim C6 at the demo index.\<close>

theorem retrieve_similarity_order_witness:
  "vector_store demo_retriever = (\<lambda>emb n. Inr demo_result) \<and> sorted (distances demo_result)
   \<and> retrieve demo_retriever ''q'' None (Some ''pdf'') = Inr [demo_doc1, demo_doc3]
   \<and> (\<exists>emb n res cs.
           embedding_generator demo_retriever ''q'' = Inr emb
         \<and> vector_store demo_retriever emb n = Inr res
         \<and> subseq cs (candidates res)
         \<and> [demo_doc1, demo_doc3] = map to_doc cs
         \<and> map rd_similarity [demo_doc1, demo_doc3] = map (\<lambda>c. 1 - snd (snd c)) cs
         \<and> sorted_wrt (\<ge>) (map rd_similarity [demo_doc1, demo_doc3]))"
proof -
  have "\<exists>emb n res cs.
           embedding_generator demo_retriever ''q'' = Inr emb
         \<and> vector_store demo_retriever emb n = Inr res
         \<and> subseq cs (candidates res)
         \<and> [demo_doc1, demo_doc3] = map to_doc cs
         \<and> map rd_similarity [demo_doc1, demo_doc3] = map (\<lambda>c. 1 - snd (snd c)) cs
         \<and> sorted_wrt (\<ge>) (map rd_similarity [demo_doc1, demo_doc3])"
  proof (rule retrieve_similarity_order)
    show "sorted (distances res)" if "vector_store demo_retriever emb n = Inr res" for emb n res
      using that by (rule demo_ascending)
    show "retrieve demo_retriever ''q'' None (Some ''pdf'') = Inr [demo_doc1, demo_doc3]"
      by (rule demo_retrieve_pdf)
  qed
  moreover have "vector_store demo_retriever = (\<lambda>emb n. Inr demo_result)"
    by (simp add: demo_retriever_def)
  moreover have "sorted (distances demo_result)"
    by (simp add: demo_result_def)
  ultimately show ?thesis using demo_retrieve_pdf by blast
qed

text \<open>
  Claim C7 as stated fails for the per-call argument \<open>top_k = 0\<close>: the call returns two
  documents, more than \<open>top_k\<close>.
\<close>

theorem retrieve_length_top_k_counterexample:
  "retrieve demo_retriever ''q'' (Some 0) (Some ''pdf'') = Inr [demo_doc1, demo_doc3]
   \<and> \<not> int (length [demo_doc1, demo_doc3]) \<le> 0"
  using demo_retrieve_pdf_zero by simp

text \<open>The amended claim C7 at the demo index, with \<open>top_k = 1\<close> and filter \<open>pdf\<close>.\<close>

theorem retrieve_source_filter_witness:
  "''pdf'' \<noteq> []
   \<and> retrieve demo_retriever ''q'' (Some 1) (Some ''pdf'') = Inr [demo_doc1]
   \<and> (\<exists>emb res.
           embedding_generator demo_retriever ''q'' = Inr emb
         \<and> vector_store demo_retriever emb (effective_k (Some 1) (top_k demo_retriever) * 2) = Inr res
         \<and> (\<forall>d \<in> set [demo_doc1]. \<exists>t. rd_source d = PyStr t \<and> sublist ''pdf'' t)
         \<and> (\<exists>n. [demo_doc1] = take n
                (map to_doc (filter (\<lambda>c. source_contains ''pdf'' (fst (snd c))) (candidates res))))
         \<and> (1 \<le> effective_k (Some 1) (top_k demo_retriever) \<longrightarrow>
               [demo_doc1] = take (nat (effective_k (Some 1) (top_k demo_retriever)))
                 (map to_doc (filter (\<lambda>c. source_contains ''pdf'' (fst (snd c))) (candidates res)))
               \<and> int (length [demo_doc1]) \<le> effective_k (Some 1) (top_k demo_retriever)))
   \<and> 1 \<le> effective_k (Some 1) (top_k demo_retriever)"
proof -
  have h1: "''pdf'' \<noteq> []" by simp
  have h2: "1 \<le> effective_k (Some 1) (top_k demo_retriever)"
    by (simp add: effective_k_def demo_retriever_def)
  from retrieve_source_filter[OF h1 demo_retrieve_pdf_one] h1 h2 demo_retrieve_pdf_one
  show ?thesis by blast
qed

text \<open>
  Claim C10.  A per-call \<open>top_k = 0\<close> is falsy, so \<open>top_k or self.top_k\<close> takes the
  constructor default: the effective \<open>k\<close> is the default and the call behaves exactly
  like the call without \<open>top_k\<close>.  On the demo index, whose default is 5, the call with
  \<open>top_k = 0\<close> returns two documents, not none.
\<close>

theorem retrieve_top_k_zero_falls_back:
  "effective_k (Some 0) (top_k self) = top_k self
   \<and> retrieve self query (Some 0) source_filter = retrieve self query None source_filter
   \<and> retrieve demo_retriever ''q'' (Some 0) (Some ''pdf'') = Inr [demo_doc1, demo_doc3]"
  using demo_retrieve_pdf_zero by (simp add: retrieve_def effective_k_def)

section \<open>Properties of the dispatcher\<close>

lemma lower_example: "lower ''.PdF'' = ''.pdf''"
  by code_simp

lemma doc_methods_detect:
  "m \<in> set (doc_methods (detect_processors env)) = detected env m"
  by (auto simp: detect_processors_def detected_def Let_def)

lemma doc_detect: "doc (detect_processors env) = (\<exists>m \<in> set doc_preference. detected env m)"
  by (auto simp: detect_processors_def detected_def Let_def doc_preference_def)

text \<open>
  Claim C9.  On a processor built by the constructor, \<open>_load_doc\<close> runs the first method
  of the list antiword, textract, win32com that was detected at construction, and only
  that one: the list of invoked backends is that single method.  Its exception leaves
  \<open>_load_doc\<close> unchanged and no other backend is tried; with no method detected nothing
  is invoked and \<open>RuntimeError\<close> is raised.
\<close>

theorem load_doc_first_detected:
  "load_doc (init_processor env cs ov mn) bk file_path =
     (case find (detected env) doc_preference of
        None \<Rightarrow> ([], Inl RuntimeError)
      | Some m \<Rightarrow>
          ([m], case run_backend bk m file_path of
                  Inl e \<Rightarrow> Inl e
                | Inr text \<Rightarrow> Inr (text, doc_metadata file_path m)))"
  by (simp add: load_doc_def init_processor_def doc_methods_detect doc_preference_def
      doc_result_def run_backend_def detected_def)

lemma load_doc_invokes:
  "doc (detect_processors env) \<Longrightarrow> fst (load_doc (init_processor env cs ov mn) bk p) \<noteq> []"
  by (auto simp: load_doc_def init_processor_def doc_result_def doc_methods_detect doc_detect
      doc_preference_def)

text \<open>
  Claim C8, amended.  On a processor built by the constructor, \<open>load_document\<close> dispatches
  on the lowered suffix alone.  It raises \<open>FileNotFoundError\<close> before invoking any loader
  exactly when the path does not exist; it raises \<open>ValueError\<close> before invoking any loader
  exactly when the path exists and the lowered suffix is none of \<open>.pdf\<close>, \<open>.docx\<close>,
  \<open>.doc\<close>; it raises \<open>RuntimeError\<close> before invoking any loader exactly when the path
  exists, the lowered suffix is one of the three and no processor for that format was
  detected at construction.  In every other case it invokes the loader of the format
  (\<open>_load_pdf\<close> for \<open>.pdf\<close>, \<open>_load_docx\<close> for \<open>.docx\<close>, \<open>_load_doc\<close> for \<open>.doc\<close>) and returns
  what the loader returns or raises what the loader raises, unchanged, whatever the class
  of that exception.
\<close>

theorem load_document_dispatch:
  "(load_document (init_processor env cs ov mn) bk p = ([], Inl FileNotFoundError))
       = (\<not> path_exists p)
   \<and> (load_document (init_processor env cs ov mn) bk p = ([], Inl ValueError))
       = (path_exists p \<and> lower (path_suffix p) \<notin> {''.pdf'', ''.docx'', ''.doc''})
   \<and> (load_document (init_processor env cs ov mn) bk p = ([], Inl RuntimeError))
       = (path_exists p \<and> lower (path_suffix p) \<in> {''.pdf'', ''.docx'', ''.doc''}
          \<and> \<not> format_detected (detect_processors env) (lower (path_suffix p)))
   \<and> (path_exists p \<and> lower (path_suffix p) = ''.pdf'' \<and> pdf (detect_processors env) \<longrightarrow>
         load_document (init_processor env cs ov mn) bk p = ([''pypdf''], load_pdf bk p))
   \<and> (path_exists p \<and> lower (path_suffix p) = ''.docx'' \<and> docx (detect_processors env) \<longrightarrow>
         load_document (init_processor env cs ov mn) bk p = ([''python-docx''], load_docx bk p))
   \<and> (path_exists p \<and> lower (path_suffix p) = ''.doc'' \<and> doc (detect_processors env) \<longrightarrow>
         load_document (init_processor env cs ov mn) bk p
           = load_doc (init_processor env cs ov mn) bk p)"
proof -
  let ?P = "init_processor env cs ov mn"
  have av: "available ?P = detect_processors env" by (simp add: init_processor_def)
  have doc_log: "load_doc ?P bk p \<noteq> ([], e)" if "doc (detect_processors env)" for e
    using load_doc_invokes[OF that, of cs ov mn bk p] by auto
  have not_found: "(load_document ?P bk p = ([], Inl FileNotFoundError)) = (\<not> path_exists p)"
    using doc_log by (auto simp: load_document_def Let_def av parser_result_def)
  have unsupported: "(load_document ?P bk p = ([], Inl ValueError))
       = (path_exists p \<and> lower (path_suffix p) \<notin> {''.pdf'', ''.docx'', ''.doc''})"
    using doc_log by (auto simp: load_document_def Let_def av parser_result_def)
  have unavailable: "(load_document ?P bk p = ([], Inl RuntimeError))
       = (path_exists p \<and> lower (path_suffix p) \<in> {''.pdf'', ''.docx'', ''.doc''}
          \<and> \<not> format_detected (detect_processors env) (lower (path_suffix p)))"
    using doc_log by (auto simp: load_document_def Let_def av parser_result_def format_detected_def)
  have routed:
    "path_exists p \<and> lower (path_suffix p) = ''.pdf'' \<and> pdf (detect_processors env) \<longrightarrow>
       load_document ?P bk p = ([''pypdf''], load_pdf bk p)"
    "path_exists p \<and> lower (path_suffix p) = ''.docx'' \<and> docx (detect_processors env) \<longrightarrow>
       load_document ?P bk p = ([''python-docx''], load_docx bk p)"
    "path_exists p \<and> lower (path_suffix p) = ''.doc'' \<and> doc (detect_processors env) \<longrightarrow>
       load_document ?P bk p = load_doc ?P bk p"
    by (simp_all add: load_document_def Let_def av parser_result_def)
  from not_found unsupported unavailable routed show ?thesis by blast
qed

lemma lower_PDF: "lower ''.PDF'' = ''.pdf''"
  by code_simp

lemma lower_docx: "lower ''.docx'' = ''.docx''"
  by code_simp

lemma lower_doc: "lower ''.doc'' = ''.doc''"
  by code_simp

text \<open>
  The amended claim C8 on three existing files, with every processor detected: the
  PDF goes to \<open>_load_pdf\<close>, the DOCX to \<open>_load_docx\<close>, whose \<open>ValueError\<close> comes back
  unchanged, and the DOC to \<open>_load_doc\<close>, which runs antiword.
\<close>

theorem load_document_dispatch_witness:
  "path_exists pdf_path \<and> lower (path_suffix pdf_path) = ''.pdf''
   \<and> pdf (detect_processors full_environment)
   \<and> load_document (init_processor full_environment 1000 200 100) unreadable_backends pdf_path
       = ([''pypdf''], Inr (''text of the report'', Map.empty))
   \<and> path_exists docx_path \<and> lower (path_suffix docx_path) = ''.docx''
   \<and> docx (detect_processors full_environment)
   \<and> load_document (init_processor full_environment 1000 200 100) unreadable_backends docx_path
       = ([''python-docx''], Inl ValueError)
   \<and> path_exists doc_path \<and> lower (path_suffix doc_path) = ''.doc''
   \<and> doc (detect_processors full_environment)
   \<and> load_document (init_processor full_environment 1000 200 100) unreadable_backends doc_path
       = ([''antiword''], Inr (''text'', doc_metadata doc_path ''antiword''))"
proof -
  note d = load_document_dispatch[of full_environment 1000 200 100 unreadable_backends]
  have det: "pdf (detect_processors full_environment)" "docx (detect_processors full_environment)"
    "doc (detect_processors full_environment)"
    by (simp_all add: detect_processors_def full_environment_def)
  have p1: "path_exists pdf_path \<and> lower (path_suffix pdf_path) = ''.pdf''"
    by (simp add: pdf_path_def lower_PDF)
  have p2: "path_exists docx_path \<and> lower (path_suffix docx_path) = ''.docx''"
    by (simp add: docx_path_def lower_docx)
  have p3: "path_exists doc_path \<and> lower (path_suffix doc_path) = ''.doc''"
    by (simp add: doc_path_def lower_doc)
  from d[of pdf_path] p1 det(1)
  have r1: "load_document (init_processor full_environment 1000 200 100) unreadable_backends pdf_path
          = ([''pypdf''], load_pdf unreadable_backends pdf_path)"
    by blast
  from d[of docx_path] p2 det(2)
  have r2: "load_document (init_processor full_environment 1000 200 100) unreadable_backends docx_path
          = ([''python-docx''], load_docx unreadable_backends docx_path)"
    by blast
  from d[of doc_path] p3 det(3)
  have r3: "load_document (init_processor full_environment 1000 200 100) unreadable_backends doc_path
          = load_doc (init_processor full_environment 1000 200 100) unreadable_backends doc_path"
    by blast
  have r3': "load_doc (init_processor full_environment 1000 200 100) unreadable_backends doc_path
          = ([''antiword''], Inr (''text'', doc_metadata doc_path ''antiword''))"
    by (simp add: load_doc_def init_processor_def detect_processors_def full_environment_def
        doc_result_def unreadable_backends_def)
  from p1 p2 p3 det r1 r2 r3 r3' show ?thesis
    by (simp add: unreadable_backends_def)
qed

text \<open>
  Claim C8 as stated fails: on an existing \<open>.docx\<close> file that the DOCX parser rejects with
  \<open>ValueError\<close>, \<open>load_document\<close> raises \<open>ValueError\<close> although the suffix is a supported one.
\<close>

theorem load_document_value_error_counterexample:
  "path_exists docx_path \<and> lower (path_suffix docx_path) = ''.docx''
   \<and> snd (load_document (init_processor full_environment 1000 200 100) unreadable_backends docx_path)
       = Inl ValueError"
  by (simp add: load_document_def Let_def init_processor_def detect_processors_def
      full_environment_def docx_path_def lower_docx parser_result_def unreadable_backends_def)

section \<open>Properties of the regular expressions and of clean_text\<close>

lemma concat_map_singleton: "concat (map (\<lambda>r. [r]) xs) = xs"
  by (induction xs) auto

lemma rx_rests_Nil_fun: "rx_rests [] = (\<lambda>r. [r])"
  by (rule ext) simp

lemma rx_rests_single: "rx_rests [i] s = item_rests i s"
  by (simp add: concat_map_singleton rx_rests_Nil_fun)

lemma takeWhile_len_pos: "(takeWhile P s \<noteq> []) = (s \<noteq> [] \<and> P (hd s))"
  by (cases s) auto

lemma item_rests_Plus_hd:
  "item_rests (Plus P) s =
     (if s \<noteq> [] \<and> P (hd s)
      then dropWhile P s # map (\<lambda>k. drop k s) (rev [1 ..< length (takeWhile P s)])
      else [])"
proof (cases "takeWhile P s")
  case Nil
  then have "\<not> (s \<noteq> [] \<and> P (hd s))" using takeWhile_len_pos[of P s] by simp
  with Nil show ?thesis by simp
next
  case (Cons a as)
  then have "s \<noteq> [] \<and> P (hd s)" using takeWhile_len_pos[of P s] by simp
  moreover have "drop (Suc (length as)) s = dropWhile P s"
    using Cons by (simp add: dropWhile_eq_drop)
  ultimately show ?thesis using Cons by simp
qed

lemma rx_match_Plus:
  "rx_match False [Plus P] s = (if s \<noteq> [] \<and> P (hd s) then Some (dropWhile P s) else None)"
  by (simp add: rx_match_def rx_rests_single item_rests_Plus_hd del: item_rests.simps)



lemma length_dropWhile_less: "s \<noteq> [] \<Longrightarrow> P (hd s) \<Longrightarrow> length (dropWhile P s) < length s"
  by (cases s) (auto simp: less_Suc_eq_le length_dropWhile_le)


lemma re_sub_Plus_Cons:
  "re_sub [Plus P] repl (c # cs) =
     (if P c then repl @ re_sub [Plus P] repl (dropWhile P cs) else c # re_sub [Plus P] repl cs)"
  unfolding re_sub_def
  by (subst re_sub_from.simps) (simp add: rx_match_Plus less_Suc_eq_le length_dropWhile_le)





lemma collapse_Cons:
  "collapse (c # cs) =
     (if is_space c then CHR '' '' # collapse (dropWhile is_space cs) else c # collapse cs)"
  by (simp add: collapse_def rx_whitespace_def re_sub_Plus_Cons)




lemma collapse_hd: "s \<noteq> [] \<Longrightarrow> \<not> is_space (hd s) \<Longrightarrow> collapse s \<noteq> [] \<and> hd (collapse s) = hd s"
  by (cases s) (auto simp: collapse_Cons)



















text \<open>
  Claim C2.  The page-header substitution alone removes the header line of
  \<open>page_header_text\<close>, but \<open>clean_text\<close> runs it after the whitespace collapse has turned
  every newline into a blank, so the header line survives in the output.
\<close>

theorem clean_text_keeps_page_header:
  "re_sub rx_page_header [newline] page_header_text = ''x'' @ [newline] @ ''y''
   \<and> clean_text page_header_text = ''x 12 3GPP TS 23.501 y''"
  by code_simp

section \<open>Properties of chunk_text\<close>

lemma stuck_clean: "clean_text stuck_text = stuck_text"
  by code_simp

lemma stuck_len: "int (length stuck_text) = 63"
  by (simp add: stuck_text_def)

lemma stuck_end0: "chunk_end test_processor stuck_text 0 = 3"
  by code_simp

lemma stuck_end1: "chunk_end test_processor stuck_text 1 = 3"
  by code_simp

lemma stuck_next: "next_start test_processor 3 = 1"
  by (simp add: next_start_def test_processor_def)

lemma stuck_loop: "chunk_loop fuel test_processor stuck_text md 1 chunk_id chunks = None"
  by (induction fuel arbitrary: chunk_id chunks)
     (simp_all add: stuck_len stuck_end1 stuck_next Let_def)

text \<open>
  Claim C1.  With \<open>chunk_size = 50\<close> and \<open>chunk_overlap = 10\<close> the loop does not end on
  \<open>stuck_text\<close>: the only sentence ending of the search window is at offset 3, so every
  iteration snaps \<open>end\<close> back to 3 and the guard resets \<open>start\<close> to 1.  No amount of fuel
  makes \<open>chunk_text\<close> return.
\<close>

theorem chunk_text_never_returns: "chunk_text fuel test_processor stuck_text md = None"
proof (cases fuel)
  case 0
  then show ?thesis by (simp add: chunk_text_def stuck_clean stuck_len)
next
  case (Suc n)
  then show ?thesis
    by (simp add: chunk_text_def stuck_clean stuck_len stuck_end0 stuck_next Let_def stuck_loop)
qed

lemma terminator_not_space: "terminator c \<Longrightarrow> \<not> is_space c"
  by (auto simp: terminator_def is_space_def)

lemma rx_rests_single_fun: "rx_rests [i] = item_rests i"
  by (rule ext) (rule rx_rests_single)

lemma rx_match_sentence:
  "rx_match False rx_sentence_end s =
     (case s of [] \<Rightarrow> None
      | c # cs \<Rightarrow> if terminator c \<and> cs \<noteq> [] \<and> is_space (hd cs)
                  then Some (dropWhile is_space cs) else None)"
proof (cases s)
  case Nil
  then show ?thesis by (simp add: rx_match_def rx_sentence_end_def)
next
  case (Cons c cs)
  have "rx_rests rx_sentence_end (c # cs) =
          (if terminator c then item_rests (Plus is_space) cs else [])"
    unfolding rx_sentence_end_def terminator_def
    by (simp add: rx_rests_single_fun del: item_rests.simps(3))
  then show ?thesis using Cons
    by (simp add: rx_match_def item_rests_Plus_hd del: item_rests.simps)
qed

lemma length_minus_dropWhile:
  "Suc (length cs) - length (dropWhile P cs) = Suc (length (takeWhile P cs))"
proof -
  have "length cs = length (takeWhile P cs) + length (dropWhile P cs)"
    by (metis length_append takeWhile_dropWhile_id)
  then show ?thesis by simp
qed

lemma ends_from_Nil: "finditer_ends_from False rx_sentence_end [] pos = []"
  by (subst finditer_ends_from.simps) (simp add: rx_match_sentence)

lemma ends_from_Cons:
  "finditer_ends_from False rx_sentence_end (c # cs) pos =
     (if terminator c \<and> cs \<noteq> [] \<and> is_space (hd cs)
      then (pos + Suc (length (takeWhile is_space cs)))
           # finditer_ends_from False rx_sentence_end (dropWhile is_space cs)
               (pos + Suc (length (takeWhile is_space cs)))
      else finditer_ends_from False rx_sentence_end cs (Suc pos))"
  by (subst finditer_ends_from.simps)
     (simp add: rx_match_sentence less_Suc_eq_le length_dropWhile_le length_minus_dropWhile)

lemma ends_from_match:
  "match_here c cs \<Longrightarrow>
   finditer_ends_from False rx_sentence_end (c # cs) pos =
     (pos + Suc (length (takeWhile is_space cs)))
     # finditer_ends_from False rx_sentence_end (dropWhile is_space cs)
         (pos + Suc (length (takeWhile is_space cs)))"
  unfolding match_here_def by (subst ends_from_Cons) simp

lemma ends_from_nomatch:
  "\<not> match_here c cs \<Longrightarrow>
   finditer_ends_from False rx_sentence_end (c # cs) pos =
     finditer_ends_from False rx_sentence_end cs (Suc pos)"
  unfolding match_here_def by (subst ends_from_Cons) auto

lemma ends_from_shift:
  "finditer_ends_from False rx_sentence_end s pos =
     map (\<lambda>e. e + pos) (finditer_ends_from False rx_sentence_end s 0)"
proof (induction "length s" arbitrary: s pos rule: less_induct)
  case less
  show ?case
  proof (cases s)
    case Nil
    then show ?thesis by (simp add: ends_from_Nil)
  next
    case (Cons c cs)
    let ?k = "Suc (length (takeWhile is_space cs))"
    let ?r = "dropWhile is_space cs"
    have lr: "length ?r < length s" using Cons by (simp add: less_Suc_eq_le length_dropWhile_le)
    have lc: "length cs < length s" using Cons by simp
    show ?thesis
    proof (cases "match_here c cs")
      case True
      have a: "finditer_ends_from False rx_sentence_end ?r (pos + ?k)
              = map (\<lambda>e. e + (pos + ?k)) (finditer_ends_from False rx_sentence_end ?r 0)"
        using lr by (rule less)
      have b: "finditer_ends_from False rx_sentence_end ?r (0 + ?k)
              = map (\<lambda>e. e + (0 + ?k)) (finditer_ends_from False rx_sentence_end ?r 0)"
        using lr by (rule less)
      show ?thesis unfolding Cons ends_from_match[OF True] a b
        by (simp add: add.assoc add.commute)
    next
      case False
      have a: "finditer_ends_from False rx_sentence_end cs (Suc pos)
              = map (\<lambda>e. e + Suc pos) (finditer_ends_from False rx_sentence_end cs 0)"
        using lc by (rule less)
      have b: "finditer_ends_from False rx_sentence_end cs (Suc 0)
              = map (\<lambda>e. e + Suc 0) (finditer_ends_from False rx_sentence_end cs 0)"
        using lc by (rule less)
      show ?thesis unfolding Cons ends_from_nomatch[OF False] a b
        by simp
    qed
  qed
qed

lemma sentence_ends_Nil: "sentence_ends [] = []"
  by (simp add: finditer_ends_def ends_from_Nil)

lemma sentence_ends_match:
  "match_here c cs \<Longrightarrow>
   sentence_ends (c # cs) =
     Suc (length (takeWhile is_space cs))
     # map (\<lambda>e. e + Suc (length (takeWhile is_space cs))) (sentence_ends (dropWhile is_space cs))"
  unfolding finditer_ends_def
  by (simp add: ends_from_match ends_from_shift[of _ "Suc _"])

lemma sentence_ends_nomatch:
  "\<not> match_here c cs \<Longrightarrow> sentence_ends (c # cs) = map Suc (sentence_ends cs)"
  unfolding finditer_ends_def
  by (simp add: ends_from_nomatch ends_from_shift[of _ "Suc _"])

lemma sentence_ends_bounds: "e \<in> set (sentence_ends s) \<Longrightarrow> 2 \<le> e \<and> e \<le> length s"
proof (induction "length s" arbitrary: s e rule: less_induct)
  case less
  show ?case
  proof (cases s)
    case Nil
    with less.prems show ?thesis by (simp add: sentence_ends_Nil)
  next
    case (Cons c cs)
    let ?k = "Suc (length (takeWhile is_space cs))"
    let ?r = "dropWhile is_space cs"
    have lr: "length ?r < length s" using Cons by (simp add: less_Suc_eq_le length_dropWhile_le)
    have lc: "length cs < length s" using Cons by simp
    have len: "length cs = length (takeWhile is_space cs) + length ?r"
      by (metis length_append takeWhile_dropWhile_id)
    show ?thesis
    proof (cases "match_here c cs")
      case True
      then have k2: "2 \<le> ?k" by (cases cs) (auto simp: match_here_def)
      from less.prems Cons True
      have "e = ?k \<or> (\<exists>e' \<in> set (sentence_ends ?r). e = e' + ?k)"
        by (auto simp: sentence_ends_match)
      then show ?thesis
      proof
        assume "e = ?k"
        with k2 Cons len show ?thesis by simp
      next
        assume "\<exists>e' \<in> set (sentence_ends ?r). e = e' + ?k"
        then obtain e' where e': "e' \<in> set (sentence_ends ?r)" "e = e' + ?k" by blast
        from less.hyps[OF lr e'(1)] have "e' \<le> length ?r" by simp
        with e'(2) k2 Cons len show ?thesis by simp
      qed
    next
      case False
      with less.prems Cons obtain e' where e': "e' \<in> set (sentence_ends cs)" "e = Suc e'"
        by (auto simp: sentence_ends_nomatch)
      from less.hyps[OF lc e'(1)] e'(2) Cons show ?thesis by simp
    qed
  qed
qed

lemma sentence_ends_spaces:
  "\<forall>c \<in> set ws. is_space c \<Longrightarrow> sentence_ends (ws @ s) = map (\<lambda>e. e + length ws) (sentence_ends s)"
proof (induction ws)
  case Nil
  show ?case by simp
next
  case (Cons c ws)
  then have "\<not> match_here c (ws @ s)"
    using terminator_not_space[of c] by (auto simp: match_here_def)
  then have "sentence_ends ((c # ws) @ s) = map Suc (sentence_ends (ws @ s))"
    by (simp add: sentence_ends_nomatch)
  with Cons show ?case by simp
qed

lemma sentence_ends_dropWhile:
  "sentence_ends t = map (\<lambda>e. e + length (takeWhile is_space t)) (sentence_ends (dropWhile is_space t))"
proof -
  have "\<forall>c \<in> set (takeWhile is_space t). is_space c" by (auto dest: set_takeWhileD)
  from sentence_ends_spaces[OF this, of "dropWhile is_space t"] show ?thesis by simp
qed

lemma sentence_ends_Cons_last:
  assumes "sentence_ends t \<noteq> []"
  shows "sentence_ends (c # t) \<noteq> [] \<and> last (sentence_ends (c # t)) = Suc (last (sentence_ends t))"
proof (cases "match_here c t")
  case True
  let ?k = "length (takeWhile is_space t)"
  let ?r = "dropWhile is_space t"
  have t: "sentence_ends t = map (\<lambda>e. e + ?k) (sentence_ends ?r)" by (rule sentence_ends_dropWhile)
  with assms have ne: "sentence_ends ?r \<noteq> []" by auto
  have "last (sentence_ends t) = last (sentence_ends ?r) + ?k"
    by (subst t) (simp add: last_map ne)
  moreover have "last (sentence_ends (c # t)) = last (sentence_ends ?r) + Suc ?k"
    using True ne by (simp add: sentence_ends_match last_map)
  ultimately show ?thesis using True by (simp add: sentence_ends_match)
next
  case False
  with assms show ?thesis by (simp add: sentence_ends_nomatch last_map)
qed

lemma sentence_ends_prepend:
  "sentence_ends s \<noteq> [] \<Longrightarrow>
   sentence_ends (x @ s) \<noteq> [] \<and> last (sentence_ends (x @ s)) = length x + last (sentence_ends s)"
proof (induction x)
  case Nil
  then show ?case by simp
next
  case (Cons c x)
  then have "sentence_ends (x @ s) \<noteq> []" "last (sentence_ends (x @ s)) = length x + last (sentence_ends s)"
    by simp_all
  with sentence_ends_Cons_last[of "x @ s" c] show ?case by simp
qed

lemma match_here_append: "match_here c a \<Longrightarrow> match_here c (a @ b)"
  by (cases a) (auto simp: match_here_def)

lemma sentence_ends_append_nonempty:
  "sentence_ends a \<noteq> [] \<Longrightarrow> sentence_ends (a @ b) \<noteq> []"
proof (induction a)
  case Nil
  then show ?case by (simp add: sentence_ends_Nil)
next
  case (Cons c a)
  show ?case
  proof (cases "match_here c a")
    case True
    then have "match_here c (a @ b)" by (rule match_here_append)
    then show ?thesis by (simp add: sentence_ends_match)
  next
    case False
    with Cons.prems have "sentence_ends a \<noteq> []" by (simp add: sentence_ends_nomatch)
    then have "sentence_ends (a @ b) \<noteq> []" by (rule Cons.IH)
    with sentence_ends_Cons_last[of "a @ b" c] show ?thesis by simp
  qed
qed

lemma takeWhile_within:
  "length (takeWhile P (a @ b)) \<le> length a \<Longrightarrow>
   takeWhile P (a @ b) = takeWhile P a \<and> dropWhile P (a @ b) = dropWhile P a @ b"
proof (induction a)
  case Nil
  then show ?case by (cases b) (auto split: if_splits)
next
  case (Cons x a)
  then show ?case by (auto split: if_splits)
qed

lemma last_ge_hd: "last (k # map (\<lambda>e. e + k) xs) \<ge> (k::nat)"
  by (cases xs rule: rev_cases) auto

lemma sentence_ends_truncate:
  "sentence_ends (m @ y) \<noteq> [] \<Longrightarrow> last (sentence_ends (m @ y)) \<le> length m \<Longrightarrow>
   sentence_ends m \<noteq> [] \<and> last (sentence_ends m) = last (sentence_ends (m @ y))"
proof (induction "length m" arbitrary: m rule: less_induct)
  case less
  show ?case
  proof (cases m)
    case Nil
    from less.prems(1) have "last (sentence_ends (m @ y)) \<in> set (sentence_ends (m @ y))" by simp
    then have "2 \<le> last (sentence_ends (m @ y))" using sentence_ends_bounds by blast
    with less.prems(2) Nil show ?thesis by simp
  next
    case (Cons c m')
    let ?t = "m' @ y"
    show ?thesis
    proof (cases "match_here c ?t")
      case True
      let ?k = "Suc (length (takeWhile is_space ?t))"
      have full: "sentence_ends (m @ y) = ?k # map (\<lambda>e. e + ?k) (sentence_ends (dropWhile is_space ?t))"
        using True Cons by (simp add: sentence_ends_match)
      then have "?k \<le> last (sentence_ends (m @ y))" by (simp only: last_ge_hd)
      with less.prems(2) Cons have kle: "length (takeWhile is_space ?t) \<le> length m'" by simp
      from takeWhile_within[OF kle]
      have tw: "takeWhile is_space ?t = takeWhile is_space m'"
        and dw: "dropWhile is_space ?t = dropWhile is_space m' @ y" by simp_all
      from True have "takeWhile is_space ?t \<noteq> []" by (cases ?t) (auto simp: match_here_def)
      with tw have "takeWhile is_space m' \<noteq> []" by simp
      then have "m' \<noteq> [] \<and> is_space (hd m')" by (cases m') (auto split: if_splits)
      with True have mh: "match_here c m'" by (simp add: match_here_def)
      let ?r = "dropWhile is_space m'"
      have short: "sentence_ends m = ?k # map (\<lambda>e. e + ?k) (sentence_ends ?r)"
        using mh Cons tw by (simp add: sentence_ends_match)
      have lr: "length ?r < length m" using Cons by (simp add: less_Suc_eq_le length_dropWhile_le)
      have len: "length m' = length (takeWhile is_space m') + length ?r"
        by (metis length_append takeWhile_dropWhile_id)
      show ?thesis
      proof (cases "sentence_ends (?r @ y) = []")
        case T: True
        then have "sentence_ends ?r = []" using sentence_ends_append_nonempty by blast
        with T full short dw show ?thesis by simp
      next
        case F: False
        have "last (sentence_ends (m @ y)) = last (sentence_ends (?r @ y)) + ?k"
          using F full dw by (simp add: last_map)
        with less.prems(2) Cons len tw have "last (sentence_ends (?r @ y)) \<le> length ?r" by simp
        from less.hyps[OF lr F this]
        have "sentence_ends ?r \<noteq> []" "last (sentence_ends ?r) = last (sentence_ends (?r @ y))"
          by simp_all
        with F full short dw show ?thesis by (simp add: last_map)
      qed
    next
      case False
      then have nm: "\<not> match_here c m'" using match_here_append by blast
      have full: "sentence_ends (m @ y) = map Suc (sentence_ends ?t)"
        using False Cons by (simp add: sentence_ends_nomatch)
      have short: "sentence_ends m = map Suc (sentence_ends m')"
        using nm Cons by (simp add: sentence_ends_nomatch)
      from less.prems(1) full have ne: "sentence_ends ?t \<noteq> []" by simp
      with full have "last (sentence_ends (m @ y)) = Suc (last (sentence_ends ?t))"
        by (simp add: last_map)
      with less.prems(2) Cons have "last (sentence_ends ?t) \<le> length m'" by simp
      moreover have "length m' < length m" using Cons by simp
      ultimately have "sentence_ends m' \<noteq> []" "last (sentence_ends m') = last (sentence_ends ?t)"
        using less.hyps ne by simp_all
      with full short ne show ?thesis by (simp add: last_map)
    qed
  qed
qed

lemma seg_append: "i \<le> j \<Longrightarrow> j \<le> k \<Longrightarrow> seg t i k = seg t i j @ seg t j k"
proof -
  assume ij: "i \<le> j" and jk: "j \<le> k"
  then have "k - i = (j - i) + (k - j)" by simp
  then have "take (k - i) (drop i t) = take (j - i) (drop i t) @ take (k - j) (drop (j - i) (drop i t))"
    by (simp only: take_add)
  with ij show ?thesis by (simp add: seg_def)
qed

lemma length_seg: "length (seg t i j) = min (j - i) (length t - i)"
  by (simp add: seg_def)

lemma nat_diff_nonneg: "0 \<le> i \<Longrightarrow> 0 \<le> j \<Longrightarrow> nat (j - i) = nat j - nat i"
  by arith

lemma py_slice_nonneg:
  assumes "0 \<le> i" "0 \<le> j"
  shows "py_slice t i j = seg t (nat i) (nat j)"
proof -
  let ?n = "int (length t)"
  have lo: "slice_index ?n i = min i ?n" and hi: "slice_index ?n j = min j ?n"
    using assms by (simp_all add: slice_index_def)
  show ?thesis
  proof (cases "i \<le> ?n")
    case True
    then have l: "min i ?n = i" by simp
    have "take (nat (min j ?n - i)) (drop (nat i) t) = take (nat j - nat i) (drop (nat i) t)"
    proof (cases "j \<le> ?n")
      case True
      then show ?thesis using assms by (simp add: nat_diff_nonneg)
    next
      case False
      then have "min j ?n = ?n" by simp
      moreover have "length (drop (nat i) t) \<le> nat j - nat i" using False assms by simp
      moreover have "length (drop (nat i) t) \<le> nat (?n - i)" using assms by simp
      ultimately show ?thesis by simp
    qed
    then show ?thesis by (simp add: py_slice_def Let_def lo hi l seg_def)
  next
    case False
    then have "drop (nat i) t = []" using assms by simp
    then show ?thesis by (simp add: py_slice_def Let_def lo hi seg_def)
  qed
qed

lemma chunk_end_cases:
  "chunk_end self text start =
     (if snapped self text start
      then max start (start + chunk_size self - 100) + int (last (sentence_endings self text start))
      else start + chunk_size self)"
  by (simp add: chunk_end_def snapped_def Let_def)

lemma sentence_endings_seg:
  "0 \<le> start \<Longrightarrow> 0 \<le> chunk_size self \<Longrightarrow>
   sentence_endings self text start =
     sentence_ends (seg text (nat (max start (start + chunk_size self - 100)))
                             (nat (start + chunk_size self + 100)))"
  by (simp add: sentence_endings_def Let_def py_slice_nonneg)

lemma next_start_pos: "1 \<le> next_start self e"
  by (simp add: next_start_def Let_def)

lemma next_start_bound: "e \<le> next_start self e + chunk_overlap self"
  by (simp add: next_start_def Let_def)

lemma chunk_end_stuck:
  assumes start0: "0 \<le> start"
    and cfg: "chunk_overlap self < chunk_size self"
    and sdef: "s' = next_start self (chunk_end self text start)"
    and goes_back: "s' < start"
  shows "chunk_end self text s' = chunk_end self text start \<and> s' + chunk_size self < int (length text)"
proof -
  define cs ov L where "cs = chunk_size self" and "ov = chunk_overlap self"
    and "L = int (length text)"
  define e where "e = chunk_end self text start"
  define a a' where "a = max start (start + cs - 100)" and "a' = max s' (s' + cs - 100)"
  define r where "r = last (sentence_endings self text start)"
  have cfg': "ov < cs" using cfg by (simp add: cs_def ov_def)
  have spos: "1 \<le> s'" unfolding sdef by (rule next_start_pos)
  have ebound: "e \<le> s' + ov" unfolding sdef e_def ov_def by (rule next_start_bound)
  have snap: "snapped self text start"
  proof (rule ccontr)
    assume "\<not> snapped self text start"
    then have "e = start + cs" by (simp add: chunk_end_cases e_def cs_def)
    with ebound cfg' goes_back show False by linarith
  qed
  then have TL: "start + cs < L" and ne: "sentence_endings self text start \<noteq> []"
    by (simp_all add: snapped_def cs_def L_def)
  have e: "e = a + int r" using snap by (simp add: chunk_end_cases e_def a_def r_def cs_def)
  have a_ge: "start \<le> a" "start + cs - 100 \<le> a" by (simp_all add: a_def)
  have a_le: "a \<le> start \<or> a \<le> start + cs - 100" by (auto simp: a_def max_def)
  have a'_ge: "s' \<le> a'" by (simp add: a'_def)
  have a'_le: "a' \<le> s' \<or> a' \<le> s' + cs - 100" by (auto simp: a'_def max_def)
  have cs0: "0 < cs"
  proof (rule ccontr)
    assume "\<not> 0 < cs"
    with e a_ge ebound cfg' goes_back show False by linarith
  qed
  define A B A' B' where "A = nat a" and "B = nat (start + cs + 100)"
    and "A' = nat a'" and "B' = nat (s' + cs + 100)"
  have ends: "sentence_endings self text start = sentence_ends (seg text A B)"
    using start0 cs0 by (simp add: sentence_endings_seg A_def B_def a_def cs_def)
  have ends': "sentence_endings self text s' = sentence_ends (seg text A' B')"
    using spos cs0 by (simp add: sentence_endings_seg A'_def B'_def a'_def cs_def)
  have T'L: "s' + cs < L" using goes_back TL by linarith
  have eT': "e < s' + cs" using ebound cfg' by linarith
  have a0: "0 \<le> a" using start0 a_ge by linarith
  have a'0: "0 \<le> a'" using spos a'_ge by linarith
  have a'a: "a' \<le> a" using goes_back a_ge a'_le by linarith
  have aL: "a < L" using a_le start0 TL cs0 by linarith
  have AA: "A' \<le> A" using a'a a'0 by (simp add: A_def A'_def)
  have AB': "A \<le> B'" using e eT' a0 by (simp add: A_def B'_def)
  have BB: "B' \<le> B" using goes_back by (simp add: B_def B'_def)
  have w: "seg text A B = seg text A B' @ seg text B' B"
    using AB' BB by (rule seg_append)
  have w': "seg text A' B' = seg text A' A @ seg text A B'"
    using AA AB' by (rule seg_append)
  have lenm: "r \<le> length (seg text A B')"
  proof -
    have "int r < s' + cs - a" using e eT' by linarith
    moreover have "s' + cs - a \<le> int (B' - A)" using a0 by (simp add: A_def B'_def)
    moreover have "s' + cs - a \<le> int (length text - A)" using T'L a0 by (simp add: A_def L_def)
    ultimately have "int r \<le> int (B' - A)" "int r \<le> int (length text - A)" by linarith+
    then show ?thesis by (simp add: length_seg)
  qed
  have ne_w: "sentence_ends (seg text A B' @ seg text B' B) \<noteq> []"
    using ne ends w by simp
  have r_w: "last (sentence_ends (seg text A B' @ seg text B' B)) = r"
    using ends w by (simp add: r_def)
  from sentence_ends_truncate[OF ne_w] lenm r_w
  have m: "sentence_ends (seg text A B') \<noteq> []" "last (sentence_ends (seg text A B')) = r"
    by simp_all
  from sentence_ends_prepend[OF m(1), of "seg text A' A"] m(2) w'
  have p: "sentence_ends (seg text A' B') \<noteq> []"
     "last (sentence_ends (seg text A' B')) = length (seg text A' A) + r"
    by simp_all
  have "A - A' \<le> length text - A'" using aL a0 by (simp add: A_def L_def)
  then have "length (seg text A' A) = A - A'" by (simp add: length_seg)
  then have lenx: "int (length (seg text A' A)) = a - a'"
    using AA a0 a'0 by (simp add: A_def A'_def)
  have snap': "snapped self text s'"
    using T'L p(1) ends' by (simp add: snapped_def cs_def L_def)
  then have "chunk_end self text s' = a' + int (last (sentence_endings self text s'))"
    by (simp add: chunk_end_cases a'_def cs_def)
  also have "\<dots> = a' + (a - a') + int r"
    using p(2) ends' lenx by simp
  also have "\<dots> = e" using e by simp
  finally show ?thesis using T'L by (simp add: e_def cs_def L_def)
qed

lemma chunk_loop_fixpoint:
  "start < int (length text) \<Longrightarrow> next_start self (chunk_end self text start) = start \<Longrightarrow>
   chunk_loop fuel self text md start chunk_id chunks = None"
  by (induction fuel arbitrary: chunk_id chunks) (simp_all add: Let_def)

lemma chunk_loop_step:
  "start < int (length text) \<Longrightarrow>
   chunk_loop (Suc fuel) self text md start chunk_id chunks =
     (if min_chunk_size self \<le> int (length (strip (py_slice text start (chunk_end self text start))))
      then chunk_loop fuel self text md (next_start self (chunk_end self text start)) (chunk_id + 1)
             (chunks @ [make_chunk md chunk_id start (chunk_end self text start)
                          (strip (py_slice text start (chunk_end self text start)))])
      else chunk_loop fuel self text md (next_start self (chunk_end self text start)) chunk_id chunks)"
  by (simp add: Let_def)

lemma chunk_loop_done:
  "\<not> start < int (length text) \<Longrightarrow> chunk_loop fuel self text md start chunk_id chunks = Some chunks"
  by (cases fuel) simp_all

lemma chunk_loop_progress:
  assumes ret: "chunk_loop fuel self text md start chunk_id chunks = Some result"
    and start0: "0 \<le> start" and inside: "start < int (length text)"
    and cfg: "chunk_overlap self < chunk_size self"
  shows "start < next_start self (chunk_end self text start)"
proof (rule ccontr)
  define s' where "s' = next_start self (chunk_end self text start)"
  assume "\<not> start < next_start self (chunk_end self text start)"
  then have le: "s' \<le> start" by (simp add: s'_def)
  have fixed: "next_start self (chunk_end self text s') = s'"
  proof (cases "s' = start")
    case True
    then show ?thesis using s'_def by simp
  next
    case False
    with le have "s' < start" by simp
    from chunk_end_stuck[OF start0 cfg s'_def this] show ?thesis by (simp add: s'_def)
  qed
  have within: "s' < int (length text)" using le inside by simp
  have none: "chunk_loop n self text md s' i c = None" for n i c
    using within fixed by (rule chunk_loop_fixpoint)
  show False
  proof (cases fuel)
    case 0
    with ret inside show False by simp
  next
    case (Suc n)
    with ret inside none show False
      by (simp add: chunk_loop_step s'_def[symmetric] del: chunk_loop.simps split: if_splits)
  qed
qed

lemma start_char_make_chunk: "start_char (make_chunk md i s e t) = Some s"
  by (simp add: start_char_def meta_int_def make_chunk_def)


lemma chunk_loop_starts:
  assumes cfg: "chunk_overlap self < chunk_size self"
  shows "chunk_loop fuel self text md start chunk_id chunks = Some result \<Longrightarrow> 0 \<le> start \<Longrightarrow>
         \<exists>new ss. result = chunks @ new \<and> map start_char new = map Some ss
                  \<and> sorted_wrt (<) ss \<and> (\<forall>s \<in> set ss. start \<le> s)"
proof (induction fuel arbitrary: start chunk_id chunks)
  case 0
  then have "result = chunks" by (simp split: if_splits)
  then show ?case by (intro exI[of _ "[]"]) simp
next
  case (Suc fuel)
  show ?case
  proof (cases "start < int (length text)")
    case False
    with Suc.prems have "result = chunks" by simp
    then show ?thesis by (intro exI[of _ "[]"]) simp
  next
    case True
    define e where "e = chunk_end self text start"
    define s' where "s' = next_start self e"
    define t where "t = strip (py_slice text start e)"
    have prog: "start < s'"
      using chunk_loop_progress[OF Suc.prems(1) Suc.prems(2) True cfg] by (simp add: s'_def e_def)
    then have s'0: "0 \<le> s'" using Suc.prems(2) by simp
    show ?thesis
    proof (cases "min_chunk_size self \<le> int (length t)")
      case emit: True
      let ?c = "make_chunk md chunk_id start e t"
      from Suc.prems(1) True emit
      have "chunk_loop fuel self text md s' (chunk_id + 1) (chunks @ [?c]) = Some result"
        by (simp add: chunk_loop_step e_def s'_def t_def del: chunk_loop.simps)
      from Suc.IH[OF this s'0] obtain new ss where
        n: "result = (chunks @ [?c]) @ new" "map start_char new = map Some ss"
           "sorted_wrt (<) ss" "\<forall>s \<in> set ss. s' \<le> s" by blast
      have "result = chunks @ (?c # new)" using n(1) by simp
      moreover have "map start_char (?c # new) = map Some (start # ss)"
        using n(2) by (simp add: start_char_make_chunk)
      moreover have "sorted_wrt (<) (start # ss)" using n(3) n(4) prog by auto
      moreover have "\<forall>s \<in> set (start # ss). start \<le> s" using n(4) prog by auto
      ultimately show ?thesis by blast
    next
      case skip: False
      from Suc.prems(1) True skip
      have "chunk_loop fuel self text md s' chunk_id chunks = Some result"
        by (simp add: chunk_loop_step e_def s'_def t_def del: chunk_loop.simps)
      from Suc.IH[OF this s'0] obtain new ss where
        n: "result = chunks @ new" "map start_char new = map Some ss"
           "sorted_wrt (<) ss" "\<forall>s \<in> set ss. s' \<le> s" by blast
      moreover have "\<forall>s \<in> set ss. start \<le> s" using n(4) prog by auto
      ultimately show ?thesis by blast
    qed
  qed
qed

text \<open>
  When the loop does return, every iteration has moved \<open>start\<close> forward, so the chunks it
  returns start at strictly increasing offsets.
\<close>

lemma returned_start_chars_increasing:
  assumes "chunk_overlap self < chunk_size self"
    and "chunk_text fuel self text0 md = Some result"
  shows "\<exists>ss. map start_char result = map Some ss \<and> sorted_wrt (<) ss"
proof -
  from assms(2) have "chunk_loop fuel self (clean_text text0) md 0 0 [] = Some result"
    by (simp add: chunk_text_def)
  from chunk_loop_starts[OF assms(1) this] show ?thesis by auto
qed

lemma sentences_returns: "\<not> Option.is_none (chunk_text 2 test_processor sentences_text Map.empty)"
  by code_simp

lemma sentences_starts:
  "map start_char (the (chunk_text 2 test_processor sentences_text Map.empty)) = [Some 0, Some 65]"
  by code_simp

lemma returned_start_chars_example:
  "map start_char (the (chunk_text 2 test_processor sentences_text Map.empty)) = [Some 0, Some 65]
   \<and> (\<exists>ss. map start_char (the (chunk_text 2 test_processor sentences_text Map.empty)) = map Some ss
             \<and> sorted_wrt (<) ss)"
proof -
  have h1: "chunk_overlap test_processor < chunk_size test_processor"
    by (simp add: test_processor_def)
  have h2: "chunk_text 2 test_processor sentences_text Map.empty
              = Some (the (chunk_text 2 test_processor sentences_text Map.empty))"
    using sentences_returns by (simp add: Option.is_none_def)
  from returned_start_chars_increasing[OF h1 h2] sentences_starts
  show ?thesis by simp
qed






lemma chunks_after_returned:
  "chunk_loop fuel self text md start chunk_id chunks = Some result \<Longrightarrow>
   chunks_after fuel self text md start chunk_id chunks = result"
proof (induction fuel arbitrary: start chunk_id chunks)
  case 0
  then show ?case by (simp split: if_splits)
next
  case (Suc fuel)
  then show ?case by (simp add: Let_def split: if_splits)
qed

lemma eager_end0: "chunk_end eager_processor stuck_text 0 = 3"
  by code_simp

lemma eager_end1: "chunk_end eager_processor stuck_text 1 = 3"
  by code_simp

lemma eager_next: "next_start eager_processor 3 = 1"
  by (simp add: next_start_def eager_processor_def)

lemma eager_min: "min_chunk_size eager_processor = 1"
  by (simp add: eager_processor_def)

lemma eager_slice0: "strip (py_slice stuck_text 0 3) = ''a.''"
  by code_simp

lemma eager_slice1: "strip (py_slice stuck_text 1 3) = ''.''"
  by code_simp

lemma eager_loop: "chunk_loop fuel eager_processor stuck_text md 1 chunk_id chunks = None"
proof (rule chunk_loop_fixpoint)
  show "1 < int (length stuck_text)" by (simp add: stuck_len)
  show "next_start eager_processor (chunk_end eager_processor stuck_text 1) = 1"
    by (simp add: eager_end1 eager_next)
qed

lemma eager_never_returns: "chunk_text fuel eager_processor stuck_text md = None"
proof (cases fuel)
  case 0
  then show ?thesis by (simp add: chunk_text_def stuck_clean stuck_len)
next
  case (Suc n)
  then show ?thesis
    by (simp add: chunk_text_def stuck_clean stuck_len eager_end0 eager_next eager_min
        eager_slice0 Let_def eager_loop)
qed

lemma eager_chunks:
  "chunks_after 3 eager_processor (clean_text stuck_text) md 0 0 [] =
     [make_chunk md 0 0 3 ''a.'', make_chunk md 1 1 3 ''.'', make_chunk md 2 1 3 ''.'']"
  by (simp add: numeral_3_eq_3 stuck_clean stuck_len eager_end0 eager_end1 eager_next eager_min
      eager_slice0 eager_slice1 Let_def)

text \<open>
  Claim C3.  With \<open>chunk_size = 50\<close>, \<open>chunk_overlap = 10\<close> and \<open>min_chunk_size = 1\<close> the
  loop on \<open>stuck_text\<close> appends a chunk in every iteration: the first starts at 0, the
  second at 1 and the third at 1 again, so the \<open>start_char\<close> values are not strictly
  increasing in emission order; and the call never returns the list.
\<close>

theorem chunk_text_repeats_start_char:
  "chunk_text fuel eager_processor stuck_text md = None
   \<and> map start_char (chunks_after 3 eager_processor (clean_text stuck_text) md 0 0 [])
       = [Some 0, Some 1, Some 1]"
  by (simp add: eager_never_returns eager_chunks start_char_make_chunk)

end
